theory Spec2Isabelle
  imports Complex_Main "HOL-Library.Log_Nat" "HOL-Library.Sublist"
begin

section \<open>IEEE 754 binary64 values, as NumPy's float64 arrays hold them\<close>

text \<open>
  The arrays of \<^verbatim>\<open>src/policies/incentive_policies.py\<close> and \<^verbatim>\<open>src/utils.py\<close> are NumPy
  arrays of dtype float64.  A float64 is either a finite rational number (every finite
  double is one), an infinity or a NaN.  The two zeros of IEEE 754 are identified: they
  compare equal, and none of the operations used by the source (negation, subtraction,
  multiplication, comparison) tells them apart in any other value.
\<close>

datatype double = Fin rat | PInf | NInf | NaN

text \<open>\<open>pow2 e\<close> is \<open>2\<close> to the (possibly negative) power \<open>e\<close>.\<close>

definition pow2 :: "int \<Rightarrow> rat" where
  "pow2 e = (if 0 \<le> e then 2 ^ nat e else 1 / 2 ^ nat (- e))"

text \<open>
  \<open>ilog2 x\<close> is the binary exponent of a positive rational: \<open>2 ^ ilog2 x \<le> x < 2 ^ (ilog2 x + 1)\<close>.
  It is read off the bit lengths of numerator and denominator, which bracket it within one.
\<close>

definition ilog2 :: "rat \<Rightarrow> int" where
  "ilog2 x = (let (p, q) = quotient_of x; d = bitlen p - bitlen q
              in if pow2 d \<le> x then d else d - 1)"

definition round_half_even :: "rat \<Rightarrow> int" where
  "round_half_even q = (let f = \<lfloor>q\<rfloor>; d = q - of_int f in
     if d < 1 / 2 then f else if 1 / 2 < d then f + 1 else if even f then f else f + 1)"

text \<open>
  Rounding of an exact result to the nearest double, ties to even (the default rounding
  mode, which NumPy uses): 53 bits of precision, the spacing of the subnormal range below
  \<open>2 ^ - 1022\<close>, and overflow to an infinity when the rounded value reaches \<open>2 ^ 1024\<close>.
\<close>

definition round64 :: "rat \<Rightarrow> double" where
  "round64 x = (if x = 0 then Fin 0 else
     let e = max (ilog2 \<bar>x\<bar>) (- 1022);
         u = pow2 (e - 52);
         y = of_int (round_half_even (\<bar>x\<bar> / u)) * u
     in if 1024 \<le> ilog2 y then (if x < 0 then NInf else PInf)
        else Fin (if x < 0 then - y else y))"

fun fneg :: "double \<Rightarrow> double" where
  "fneg (Fin x) = Fin (- x)"
| "fneg PInf = NInf"
| "fneg NInf = PInf"
| "fneg NaN = NaN"

text \<open>The product of an infinity with a finite factor of sign \<open>s\<close>; \<open>inf * 0\<close> is NaN.\<close>

definition inf_signed :: "rat \<Rightarrow> double" where
  "inf_signed s = (if s = 0 then NaN else if 0 < s then PInf else NInf)"

fun fmul :: "double \<Rightarrow> double \<Rightarrow> double" where
  "fmul (Fin x) (Fin y) = round64 (x * y)"
| "fmul NaN _ = NaN"
| "fmul _ NaN = NaN"
| "fmul (Fin x) PInf = inf_signed x"
| "fmul (Fin x) NInf = inf_signed (- x)"
| "fmul PInf (Fin y) = inf_signed y"
| "fmul NInf (Fin y) = inf_signed (- y)"
| "fmul PInf PInf = PInf"
| "fmul PInf NInf = NInf"
| "fmul NInf PInf = NInf"
| "fmul NInf NInf = PInf"

fun fsub :: "double \<Rightarrow> double \<Rightarrow> double" where
  "fsub (Fin x) (Fin y) = round64 (x - y)"
| "fsub NaN _ = NaN"
| "fsub _ NaN = NaN"
| "fsub PInf PInf = NaN"
| "fsub NInf NInf = NaN"
| "fsub PInf _ = PInf"
| "fsub NInf _ = NInf"
| "fsub (Fin x) PInf = NInf"
| "fsub (Fin x) NInf = PInf"

text \<open>The comparisons \<^verbatim>\<open><=\<close> and \<^verbatim>\<open><\<close>: every comparison with a NaN is false.\<close>

fun fle :: "double \<Rightarrow> double \<Rightarrow> bool" where
  "fle NaN _ = False"
| "fle _ NaN = False"
| "fle NInf _ = True"
| "fle _ PInf = True"
| "fle (Fin x) (Fin y) = (x \<le> y)"
| "fle PInf _ = False"
| "fle (Fin x) NInf = False"

fun flt :: "double \<Rightarrow> double \<Rightarrow> bool" where
  "flt NaN _ = False"
| "flt _ NaN = False"
| "flt PInf _ = False"
| "flt _ NInf = False"
| "flt (Fin x) (Fin y) = (x < y)"
| "flt NInf _ = True"
| "flt (Fin x) PInf = True"

fun is_finite :: "double \<Rightarrow> bool" where
  "is_finite (Fin x) = True"
| "is_finite _ = False"

text \<open>The number a finite double stands for.\<close>

fun valof :: "double \<Rightarrow> rat" where
  "valof (Fin x) = x"
| "valof _ = 0"

section \<open>One-dimensional float64 arrays and the NumPy operations of the policies\<close>

type_synonym ndarray = "double list"

text \<open>
  \<^verbatim>\<open>a.astype(float)\<close> on a float64 array is a copy with the same entries;
  \<^verbatim>\<open>a - s\<close>, \<^verbatim>\<open>-a\<close> and \<^verbatim>\<open>a * s\<close> with a Python scalar \<open>s\<close> work entry by entry, the
  scalar converted to float64 (\<^verbatim>\<open>5\<close> to \<^verbatim>\<open>5.0\<close>).
\<close>

definition astype_float :: "ndarray \<Rightarrow> ndarray" where
  "astype_float a = a"

definition sub_scalar :: "ndarray \<Rightarrow> double \<Rightarrow> ndarray" where
  "sub_scalar a s = map (\<lambda>x. fsub x s) a"

definition neg :: "ndarray \<Rightarrow> ndarray" where
  "neg a = map fneg a"

definition mul_scalar :: "ndarray \<Rightarrow> double \<Rightarrow> ndarray" where
  "mul_scalar a s = map (\<lambda>x. fmul x s) a"

text \<open>\<^verbatim>\<open>a - b\<close> on two arrays of the same length.\<close>

definition sub_arrays :: "ndarray \<Rightarrow> ndarray \<Rightarrow> ndarray" where
  "sub_arrays a b = map2 fsub a b"

section \<open>The policies of \<^verbatim>\<open>src/policies/incentive_policies.py\<close>\<close>

text \<open>
  The bound object \<^verbatim>\<open>self\<close>: the policies read at most its attribute
  \<^verbatim>\<open>nb_actors\<close>, a Python integer.
\<close>

record simulation =
  nb_actors :: int

text \<open>
  \<open>ValueError\<close> is what \<^verbatim>\<open>np.zeros\<close> raises on a negative dimension.  \<open>ShapeMismatch\<close>
  and \<open>InvalidInput\<close> are the two error classes of the specification's taxonomy; no
  \<^verbatim>\<open>raise\<close> and no check of the source produces them, so no function below returns them.
\<close>

datatype error = ValueError | ShapeMismatch | InvalidInput

text \<open>
  All four policies have the same eleven parameters.  The defaults \<^verbatim>\<open>DOE=15\<close> and
  \<^verbatim>\<open>DCR=10\<close> are arguments here.
\<close>

definition mixed_policy ::
  "simulation \<Rightarrow> ndarray \<Rightarrow> ndarray \<Rightarrow> ndarray \<Rightarrow> ndarray \<Rightarrow> ndarray \<Rightarrow> bool list \<Rightarrow> ndarray
    \<Rightarrow> ndarray \<Rightarrow> int \<Rightarrow> int \<Rightarrow> error + ndarray" where
  "mixed_policy self actions actors_priority avg_incomes water_pump avg_pump is_crisis
      water_flows quota DOE DCR =
     (let actions = sub_scalar (astype_float actions) (Fin (1 / 2))
      in Inr (mul_scalar (neg actions) (Fin 5)))"

definition fine_policy ::
  "simulation \<Rightarrow> ndarray \<Rightarrow> ndarray \<Rightarrow> ndarray \<Rightarrow> ndarray \<Rightarrow> ndarray \<Rightarrow> bool list \<Rightarrow> ndarray
    \<Rightarrow> ndarray \<Rightarrow> int \<Rightarrow> int \<Rightarrow> error + ndarray" where
  "fine_policy self actions actors_priority avg_incomes water_pump avg_pump is_crisis
      water_flows quota DOE DCR =
     (let actions = sub_scalar (astype_float actions) (Fin 1)
      in Inr (mul_scalar (neg actions) (Fin 5)))"

definition subvention_policy ::
  "simulation \<Rightarrow> ndarray \<Rightarrow> ndarray \<Rightarrow> ndarray \<Rightarrow> ndarray \<Rightarrow> ndarray \<Rightarrow> bool list \<Rightarrow> ndarray
    \<Rightarrow> ndarray \<Rightarrow> int \<Rightarrow> int \<Rightarrow> error + ndarray" where
  "subvention_policy self actions actors_priority avg_incomes water_pump avg_pump is_crisis
      water_flows quota DOE DCR =
     (let actions = astype_float actions
      in Inr (mul_scalar (neg actions) (Fin 5)))"

text \<open>\<^verbatim>\<open>np.zeros(n)\<close>: \<open>n\<close> zeros, and a \<open>ValueError\<close> for a negative \<open>n\<close>.\<close>

definition np_zeros :: "int \<Rightarrow> error + ndarray" where
  "np_zeros n = (if n < 0 then Inl ValueError else Inr (replicate (nat n) (Fin 0)))"

definition no_policy ::
  "simulation \<Rightarrow> ndarray \<Rightarrow> ndarray \<Rightarrow> ndarray \<Rightarrow> ndarray \<Rightarrow> ndarray \<Rightarrow> bool list \<Rightarrow> ndarray
    \<Rightarrow> ndarray \<Rightarrow> int \<Rightarrow> int \<Rightarrow> error + ndarray" where
  "no_policy self actions actors_priority avg_incomes water_pump avg_pump is_crisis
      water_flows quota DOE DCR = np_zeros (nb_actors self)"

section \<open>The Pareto filter of \<^verbatim>\<open>src/utils.py\<close>\<close>

text \<open>
  A cost matrix is a two-dimensional float64 array, given by its rows; all rows of an
  array have the same length.  \<^verbatim>\<open>costs <= c\<close> and \<^verbatim>\<open>costs < c\<close> compare every row of
  \<open>costs\<close> with the row \<open>c\<close> entry by entry (broadcasting), \<^verbatim>\<open>np.all(_, axis=1)\<close> and
  \<^verbatim>\<open>np.any(_, axis=1)\<close> reduce every row, \<^verbatim>\<open>&\<close> is the conjunction entry by entry and
  \<^verbatim>\<open>np.any\<close> reduces a vector.
\<close>

type_synonym matrix = "double list list"

definition le_rows :: "matrix \<Rightarrow> double list \<Rightarrow> bool list list" where
  "le_rows costs c = map (\<lambda>r. map2 fle r c) costs"

definition lt_rows :: "matrix \<Rightarrow> double list \<Rightarrow> bool list list" where
  "lt_rows costs c = map (\<lambda>r. map2 flt r c) costs"

definition np_all_axis1 :: "bool list list \<Rightarrow> bool list" where
  "np_all_axis1 b = map (list_all id) b"

definition np_any_axis1 :: "bool list list \<Rightarrow> bool list" where
  "np_any_axis1 b = map (list_ex id) b"

definition np_and :: "bool list \<Rightarrow> bool list \<Rightarrow> bool list" where
  "np_and u v = map2 (\<and>) u v"

definition np_any :: "bool list \<Rightarrow> bool" where
  "np_any u = list_ex id u"

definition np_ones_bool :: "nat \<Rightarrow> bool list" where
  "np_ones_bool n = replicate n True"

text \<open>
  The vector \<^verbatim>\<open>np.all(costs <= c, axis=1) & np.any(costs < c, axis=1)\<close> of the loop body:
  its entry \<open>j\<close> says whether row \<open>j\<close> dominates \<open>c\<close>.
\<close>

definition dominators :: "matrix \<Rightarrow> double list \<Rightarrow> bool list" where
  "dominators costs c = np_and (np_all_axis1 (le_rows costs c)) (np_any_axis1 (lt_rows costs c))"

text \<open>
  The loop \<^verbatim>\<open>for i, c in enumerate(costs): is_efficient[i] = not np.any(...)\<close> is a fold
  over the enumerated rows that updates the vector in place.
\<close>

definition is_pareto_efficient :: "matrix \<Rightarrow> bool list" where
  "is_pareto_efficient costs =
     fold (\<lambda>(i, c) is_efficient. is_efficient[i := \<not> np_any (dominators costs c)])
       (enumerate 0 costs) (np_ones_bool (length costs))"

section \<open>The same functions on a store of arrays\<close>

text \<open>
  NumPy arrays are mutable objects and the functions receive references to them.  To say
  what a call does to its arguments, the functions are given a second time on an explicit
  store.  The store keeps the live arrays by kind; a reference is the position of an array
  in the list of its kind, and an allocation appends to that list.  A Python name always
  refers to a live object, so a reference handed to a function is read without a check.
\<close>

record heap =
  floats :: "ndarray list"
  bools :: "bool list list"
  matrices :: "matrix list"
  bool_matrices :: "bool list list list"

type_synonym ref = nat

definition new_floats :: "ndarray \<Rightarrow> heap \<Rightarrow> ref \<times> heap" where
  "new_floats xs h = (length (floats h), h\<lparr>floats := floats h @ [xs]\<rparr>)"

definition new_bools :: "bool list \<Rightarrow> heap \<Rightarrow> ref \<times> heap" where
  "new_bools bs h = (length (bools h), h\<lparr>bools := bools h @ [bs]\<rparr>)"

definition new_bool_matrix :: "bool list list \<Rightarrow> heap \<Rightarrow> ref \<times> heap" where
  "new_bool_matrix bm h = (length (bool_matrices h), h\<lparr>bool_matrices := bool_matrices h @ [bm]\<rparr>)"

text \<open>
  Every NumPy operation of the sources returns a new array: \<^verbatim>\<open>astype\<close> (a copy, its
  default), the arithmetic and comparison operators, the reductions along an axis,
  \<^verbatim>\<open>np.zeros\<close> and \<^verbatim>\<open>np.ones\<close>.
\<close>

definition astype_float_h :: "ref \<Rightarrow> heap \<Rightarrow> ref \<times> heap" where
  "astype_float_h a h = new_floats (astype_float (floats h ! a)) h"

definition sub_scalar_h :: "ref \<Rightarrow> double \<Rightarrow> heap \<Rightarrow> ref \<times> heap" where
  "sub_scalar_h a s h = new_floats (sub_scalar (floats h ! a) s) h"

definition neg_h :: "ref \<Rightarrow> heap \<Rightarrow> ref \<times> heap" where
  "neg_h a h = new_floats (neg (floats h ! a)) h"

definition mul_scalar_h :: "ref \<Rightarrow> double \<Rightarrow> heap \<Rightarrow> ref \<times> heap" where
  "mul_scalar_h a s h = new_floats (mul_scalar (floats h ! a) s) h"

definition mixed_policy_h ::
  "simulation \<Rightarrow> ref \<Rightarrow> ref \<Rightarrow> ref \<Rightarrow> ref \<Rightarrow> ref \<Rightarrow> ref \<Rightarrow> ref \<Rightarrow> ref \<Rightarrow> int \<Rightarrow> int \<Rightarrow> heap
    \<Rightarrow> error + ref \<times> heap" where
  "mixed_policy_h self actions actors_priority avg_incomes water_pump avg_pump is_crisis
      water_flows quota DOE DCR h =
     (let (t, h) = astype_float_h actions h;
          (actions, h) = sub_scalar_h t (Fin (1 / 2)) h;
          (t, h) = neg_h actions h
      in Inr (mul_scalar_h t (Fin 5) h))"

definition fine_policy_h ::
  "simulation \<Rightarrow> ref \<Rightarrow> ref \<Rightarrow> ref \<Rightarrow> ref \<Rightarrow> ref \<Rightarrow> ref \<Rightarrow> ref \<Rightarrow> ref \<Rightarrow> int \<Rightarrow> int \<Rightarrow> heap
    \<Rightarrow> error + ref \<times> heap" where
  "fine_policy_h self actions actors_priority avg_incomes water_pump avg_pump is_crisis
      water_flows quota DOE DCR h =
     (let (t, h) = astype_float_h actions h;
          (actions, h) = sub_scalar_h t (Fin 1) h;
          (t, h) = neg_h actions h
      in Inr (mul_scalar_h t (Fin 5) h))"

definition subvention_policy_h ::
  "simulation \<Rightarrow> ref \<Rightarrow> ref \<Rightarrow> ref \<Rightarrow> ref \<Rightarrow> ref \<Rightarrow> ref \<Rightarrow> ref \<Rightarrow> ref \<Rightarrow> int \<Rightarrow> int \<Rightarrow> heap
    \<Rightarrow> error + ref \<times> heap" where
  "subvention_policy_h self actions actors_priority avg_incomes water_pump avg_pump is_crisis
      water_flows quota DOE DCR h =
     (let (actions, h) = astype_float_h actions h;
          (t, h) = neg_h actions h
      in Inr (mul_scalar_h t (Fin 5) h))"

definition no_policy_h ::
  "simulation \<Rightarrow> ref \<Rightarrow> ref \<Rightarrow> ref \<Rightarrow> ref \<Rightarrow> ref \<Rightarrow> ref \<Rightarrow> ref \<Rightarrow> ref \<Rightarrow> int \<Rightarrow> int \<Rightarrow> heap
    \<Rightarrow> error + ref \<times> heap" where
  "no_policy_h self actions actors_priority avg_incomes water_pump avg_pump is_crisis
      water_flows quota DOE DCR h =
     (case np_zeros (nb_actors self) of Inl e \<Rightarrow> Inl e | Inr z \<Rightarrow> Inr (new_floats z h))"

text \<open>
  In \<^verbatim>\<open>for i, c in enumerate(costs)\<close> the row \<open>c\<close> is a view: it shares the memory of
  \<open>costs\<close>, and reading it reads row \<open>i\<close> of the matrix in the store.
\<close>

definition row_view :: "heap \<Rightarrow> ref \<times> nat \<Rightarrow> double list" where
  "row_view h c = matrices h ! fst c ! snd c"

definition le_rows_h :: "ref \<Rightarrow> ref \<times> nat \<Rightarrow> heap \<Rightarrow> ref \<times> heap" where
  "le_rows_h costs c h = new_bool_matrix (le_rows (matrices h ! costs) (row_view h c)) h"

definition lt_rows_h :: "ref \<Rightarrow> ref \<times> nat \<Rightarrow> heap \<Rightarrow> ref \<times> heap" where
  "lt_rows_h costs c h = new_bool_matrix (lt_rows (matrices h ! costs) (row_view h c)) h"

definition np_all_axis1_h :: "ref \<Rightarrow> heap \<Rightarrow> ref \<times> heap" where
  "np_all_axis1_h b h = new_bools (np_all_axis1 (bool_matrices h ! b)) h"

definition np_any_axis1_h :: "ref \<Rightarrow> heap \<Rightarrow> ref \<times> heap" where
  "np_any_axis1_h b h = new_bools (np_any_axis1 (bool_matrices h ! b)) h"

definition np_and_h :: "ref \<Rightarrow> ref \<Rightarrow> heap \<Rightarrow> ref \<times> heap" where
  "np_and_h u v h = new_bools (np_and (bools h ! u) (bools h ! v)) h"

text \<open>
  \<^verbatim>\<open>is_efficient[i] = v\<close> is the one assignment into an array in the sources: it
  overwrites entry \<open>i\<close> of the array that \<open>is_efficient\<close> refers to, in place.
\<close>

definition setitem_bools :: "ref \<Rightarrow> nat \<Rightarrow> bool \<Rightarrow> heap \<Rightarrow> heap" where
  "setitem_bools a i v h = h\<lparr>bools := (bools h)[a := (bools h ! a)[i := v]]\<rparr>"

definition pareto_step :: "ref \<Rightarrow> ref \<Rightarrow> nat \<Rightarrow> heap \<Rightarrow> heap" where
  "pareto_step costs is_efficient i h =
     (let c = (costs, i);
          (le, h) = le_rows_h costs c h;
          (al, h) = np_all_axis1_h le h;
          (lt, h) = lt_rows_h costs c h;
          (an, h) = np_any_axis1_h lt h;
          (d, h) = np_and_h al an h
      in setitem_bools is_efficient i (\<not> np_any (bools h ! d)) h)"

definition is_pareto_efficient_h :: "ref \<Rightarrow> heap \<Rightarrow> ref \<times> heap" where
  "is_pareto_efficient_h costs h =
     (let n = length (matrices h ! costs);
          (is_efficient, h) = new_bools (np_ones_bool n) h
      in (is_efficient, fold (pareto_step costs is_efficient) [0..<n] h))"

text \<open>
  \<open>preserved h h'\<close>: every array of the store \<open>h\<close> is in \<open>h'\<close> under the same reference
  with the same entries.
\<close>

definition preserved :: "heap \<Rightarrow> heap \<Rightarrow> bool" where
  "preserved h h' =
     (take (length (floats h)) (floats h') = floats h
      \<and> take (length (bools h)) (bools h') = bools h
      \<and> take (length (matrices h)) (matrices h') = matrices h
      \<and> take (length (bool_matrices h)) (bool_matrices h') = bool_matrices h)"

section \<open>Saving a figure: \<^verbatim>\<open>src/utils/helpers.py\<close>\<close>

text \<open>
  \<^verbatim>\<open>save_or_create\<close> works on the file system through \<^verbatim>\<open>os.path.dirname\<close>,
  \<^verbatim>\<open>os.path.exists\<close> and \<^verbatim>\<open>os.makedirs\<close>, and through the method \<^verbatim>\<open>savefig\<close> of the
  object it is given.  The path functions are those of \<^verbatim>\<open>posixpath\<close>.
\<close>

definition sep :: char where
  "sep = CHR ''/''"

definition rstrip_sep :: "string \<Rightarrow> string" where
  "rstrip_sep p = rev (dropWhile (\<lambda>c. c = sep) (rev p))"

text \<open>
  \<^verbatim>\<open>posixpath.split\<close>: the tail is what follows the last separator; the head is what
  precedes it, without its trailing separators unless it consists of separators only.
\<close>

definition split_path :: "string \<Rightarrow> string \<times> string" where
  "split_path p =
     (let tail = rev (takeWhile (\<lambda>c. c \<noteq> sep) (rev p));
          head = take (length p - length tail) p
      in (if head \<noteq> [] \<and> \<not> list_all (\<lambda>c. c = sep) head then rstrip_sep head else head, tail))"

definition dirname :: "string \<Rightarrow> string" where
  "dirname p = fst (split_path p)"

text \<open>
  The file system is a tree of directories and regular files.  A node is addressed by the
  list of names that leads to it from the root, whose address is \<open>[]\<close>; the working
  directory is one of the addresses.  The model has no symbolic links and no permissions.
\<close>

datatype node = Dir | File

record filesystem =
  nodes :: "string list \<rightharpoonup> node"
  cwd :: "string list"

text \<open>
  \<open>SavefigError\<close> stands for any exception of a \<^verbatim>\<open>savefig\<close> method.
\<close>

datatype io_error = FileNotFoundError | FileExistsError | NotADirectoryError | SavefigError

fun split_on_sep :: "string \<Rightarrow> string \<Rightarrow> string list" where
  "split_on_sep acc [] = [rev acc]"
| "split_on_sep acc (c # cs) =
     (if c = sep then rev acc # split_on_sep [] cs else split_on_sep (c # acc) cs)"

definition names_of :: "string \<Rightarrow> string list" where
  "names_of p = filter (\<lambda>c. c \<noteq> []) (split_on_sep [] p)"

text \<open>
  Resolving a path takes its names (what the separators separate, empty names dropped)
  one after the other, from the root for an absolute path and from the working directory
  otherwise.  Every step is taken from a directory: a missing node is a
  \<open>FileNotFoundError\<close>, a regular file a \<open>NotADirectoryError\<close>.  The name \<^verbatim>\<open>.\<close> stays, the
  name \<^verbatim>\<open>..\<close> goes to the parent (the root is its own parent), any other name goes to the
  child of that name, which the walk does not require to exist.
\<close>

definition step :: "string list \<Rightarrow> string \<Rightarrow> string list" where
  "step cur c = (if c = ''.'' then cur else if c = ''..'' then butlast cur else cur @ [c])"

fun walk :: "(string list \<rightharpoonup> node) \<Rightarrow> string list \<Rightarrow> string list \<Rightarrow> io_error + string list" where
  "walk ns cur [] = Inr cur"
| "walk ns cur (c # cs) =
     (case ns cur of None \<Rightarrow> Inl FileNotFoundError
      | Some File \<Rightarrow> Inl NotADirectoryError
      | Some Dir \<Rightarrow> walk ns (step cur c) cs)"

definition start :: "filesystem \<Rightarrow> string \<Rightarrow> string list" where
  "start fs p = (if p \<noteq> [] \<and> hd p = sep then [] else cwd fs)"

definition resolve :: "filesystem \<Rightarrow> string \<Rightarrow> io_error + string list" where
  "resolve fs p = walk (nodes fs) (start fs p) (names_of p)"

text \<open>
  \<^verbatim>\<open>os.path.exists\<close>: false when the path does not resolve, when nothing is at its
  address, and for a regular file named with a trailing separator.
\<close>

definition path_exists :: "filesystem \<Rightarrow> string \<Rightarrow> bool" where
  "path_exists fs p =
     (p \<noteq> [] \<and> (case resolve fs p of Inl e \<Rightarrow> False
        | Inr k \<Rightarrow> (case nodes fs k of None \<Rightarrow> False | Some Dir \<Rightarrow> True
                    | Some File \<Rightarrow> last p \<noteq> sep)))"

definition is_dir :: "filesystem \<Rightarrow> string \<Rightarrow> bool" where
  "is_dir fs p =
     (p \<noteq> [] \<and> (case resolve fs p of Inl e \<Rightarrow> False | Inr k \<Rightarrow> nodes fs k = Some Dir))"

text \<open>
  An operation of the file system returns the new file system, or the exception it
  raises with the file system as it is at that moment.  \<^verbatim>\<open>os.mkdir\<close> creates one
  directory, where nothing is yet.
\<close>

definition mkdir :: "string \<Rightarrow> filesystem \<Rightarrow> io_error \<times> filesystem + filesystem" where
  "mkdir p fs =
     (if p = [] then Inl (FileNotFoundError, fs)
      else case resolve fs p of
        Inl e \<Rightarrow> Inl (e, fs)
      | Inr k \<Rightarrow> (case nodes fs k of
                   Some n \<Rightarrow> Inl (FileExistsError, fs)
                 | None \<Rightarrow> Inr (fs\<lparr>nodes := (nodes fs)(k \<mapsto> Dir)\<rparr>)))"

text \<open>
  \<^verbatim>\<open>os.makedirs(name)\<close> with its default \<^verbatim>\<open>exist_ok=False\<close>, as the standard library
  has it: it splits \<open>name\<close> (a second time when the tail is empty), creates the head
  recursively when the head does not exist, passing over a \<open>FileExistsError\<close> of the
  recursive call, returns at once when the tail is \<^verbatim>\<open>.\<close>, and creates \<open>name\<close>.
\<close>

definition split_last :: "string \<Rightarrow> string \<times> string" where
  "split_last name =
     (let (head, tail) = split_path name
      in if tail = [] then split_path head else (head, tail))"

function makedirs :: "string \<Rightarrow> filesystem \<Rightarrow> io_error \<times> filesystem + filesystem" where
  "makedirs name fs =
     (let (head, tail) = split_last name
      in if head \<noteq> [] \<and> tail \<noteq> [] \<and> \<not> path_exists fs head then
           (case makedirs head fs of
              Inl (e, fs') \<Rightarrow>
                if e = FileExistsError
                then (if tail = ''.'' then Inr fs' else mkdir name fs')
                else Inl (e, fs')
            | Inr fs' \<Rightarrow> if tail = ''.'' then Inr fs' else mkdir name fs')
         else mkdir name fs)"
  by pat_completeness auto
termination
proof (relation "measure (\<lambda>(name, fs). length name)")
  show "wf (measure (\<lambda>(name, fs). length name))"
    by simp
next
  fix name :: string and fs :: filesystem and x head tail
  assume a: "x = split_last name" "(head, tail) = x"
    "head \<noteq> [] \<and> tail \<noteq> [] \<and> \<not> path_exists fs head"
  have strip: "length (rstrip_sep h) \<le> length h" for h
    unfolding rstrip_sep_def length_rev
    by (rule order_trans [OF length_dropWhile_le]) simp
  have le: "length (fst (split_path p)) \<le> length p" for p
  proof -
    let ?head = "take (length p - length (takeWhile (\<lambda>c. c \<noteq> sep) (rev p))) p"
    have h: "length ?head \<le> length p"
      by simp
    have "length (rstrip_sep ?head) \<le> length p"
      using strip h by (rule order_trans)
    with h show ?thesis
      by (simp add: split_path_def Let_def)
  qed
  have lt: "length (fst (split_path p)) < length p" if t: "snd (split_path p) \<noteq> []" for p
  proof -
    let ?tw = "takeWhile (\<lambda>c. c \<noteq> sep) (rev p)"
    let ?head = "take (length p - length ?tw) p"
    have l: "length ?tw \<le> length p"
      by (metis length_rev length_takeWhile_le)
    from t have pos: "0 < length ?tw"
      by (simp add: split_path_def Let_def)
    have hl: "length ?head = length p - length ?tw"
      by simp
    have h: "length ?head < length p"
      unfolding hl using l pos by linarith
    have "length (rstrip_sep ?head) < length p"
      using strip h by (rule le_less_trans)
    with h show ?thesis
      by (simp add: split_path_def Let_def)
  qed
  from a have tail: "snd (split_last name) \<noteq> []" and head: "head = fst (split_last name)"
    by (metis snd_conv, metis fst_conv)
  have "length (fst (split_last name)) < length name"
  proof (cases "snd (split_path name) = []")
    case True
    with tail have "snd (split_path (fst (split_path name))) \<noteq> []"
      by (simp add: split_last_def split_beta)
    then have "length (fst (split_path (fst (split_path name)))) < length (fst (split_path name))"
      by (rule lt)
    also have "\<dots> \<le> length name"
      by (rule le)
    finally show ?thesis
      using True by (simp add: split_last_def split_beta)
  next
    case False
    then show ?thesis
      using lt [of name] by (simp add: split_last_def split_beta)
  qed
  with head show "((head, fs), (name, fs)) \<in> measure (\<lambda>(name, fs). length name)"
    by simp
qed

declare makedirs.simps [simp del]

text \<open>
  The first argument of \<^verbatim>\<open>save_or_create\<close> is any object with a method \<^verbatim>\<open>savefig\<close>,
  which does to the file system what it does.
\<close>

record figure =
  savefig :: "string \<Rightarrow> filesystem \<Rightarrow> io_error \<times> filesystem + filesystem"

definition save_or_create ::
  "figure \<Rightarrow> string \<Rightarrow> filesystem \<Rightarrow> io_error \<times> filesystem + filesystem" where
  "save_or_create plt save_path fs =
     (if \<not> path_exists fs (dirname save_path) then
        (case makedirs (dirname save_path) fs of
           Inl e \<Rightarrow> Inl e
         | Inr fs' \<Rightarrow> savefig plt save_path fs')
      else savefig plt save_path fs)"

text \<open>
  A file system is a tree: the root and the working directory are directories, and every
  node other than the root is in a directory.
\<close>

definition well_formed :: "filesystem \<Rightarrow> bool" where
  "well_formed fs =
     (nodes fs [] = Some Dir \<and> nodes fs (cwd fs) = Some Dir
      \<and> (\<forall>k. nodes fs k \<noteq> None \<longrightarrow> k \<noteq> [] \<longrightarrow> nodes fs (butlast k) = Some Dir))"

text \<open>
  A path is tidy when it has no trailing separator, or no name at all.
\<close>

definition tidy :: "string \<Rightarrow> bool" where
  "tidy p = (names_of p = [] \<or> last p \<noteq> sep)"

text \<open>
  The nodes are closed under parents.
\<close>

definition closed :: "(string list \<rightharpoonup> node) \<Rightarrow> bool" where
  "closed ns = (\<forall>k. ns k \<noteq> None \<longrightarrow> k \<noteq> [] \<longrightarrow> ns (butlast k) = Some Dir)"

text \<open>
  \<open>grows fs fs'\<close>: every node of \<open>fs\<close> is in \<open>fs'\<close> as it was, the working directory is
  the same, and \<open>fs'\<close> has no regular file that \<open>fs\<close> has not.
\<close>

definition grows :: "filesystem \<Rightarrow> filesystem \<Rightarrow> bool" where
  "grows fs fs' =
     (cwd fs' = cwd fs \<and> nodes fs \<subseteq>\<^sub>m nodes fs'
      \<and> (\<forall>k. nodes fs' k = Some File \<longrightarrow> nodes fs k = Some File))"

text \<open>
  Where a path without a name \<^verbatim>\<open>..\<close> leads: from its start, through its names other than
  \<^verbatim>\<open>.\<close>.
\<close>

definition target :: "filesystem \<Rightarrow> string \<Rightarrow> string list" where
  "target fs p = start fs p @ filter (\<lambda>c. c \<noteq> ''.'') (names_of p)"

text \<open>
  A path is unobstructed when it has no name \<^verbatim>\<open>..\<close> and no regular file lies on the way
  to its target, the target included.
\<close>

definition unobstructed :: "filesystem \<Rightarrow> string \<Rightarrow> bool" where
  "unobstructed fs p =
     (''..'' \<notin> set (names_of p)
      \<and> list_all (\<lambda>j. nodes fs j \<noteq> Some File) (prefixes (target fs p)))"

section \<open>Properties of the arithmetic\<close>

lemma round64_minus: "round64 (- x) = fneg (round64 x)"
  by (simp add: round64_def Let_def)

lemma fmul_commute: "fmul x y = fmul y x"
  by (cases x; cases y) (simp_all add: mult.commute)

lemma inf_signed_minus: "inf_signed (- s) = fneg (inf_signed s)"
  by (simp add: inf_signed_def)

lemma fneg_fneg: "fneg (fneg x) = x"
  by (cases x) simp_all

lemma fmul_fneg_left: "fmul (fneg x) y = fneg (fmul x y)"
  by (cases x; cases y) (simp_all add: round64_minus inf_signed_minus fneg_fneg)

lemma fsub_swap: "fsub x y = fneg (fsub y x)"
proof (cases x; cases y)
  fix a b
  assume "x = Fin a" "y = Fin b"
  moreover have "a - b = - (b - a)" by simp
  ultimately show ?thesis by (simp only: fsub.simps round64_minus)
qed simp_all

lemma affine_elem: "fmul (fneg (fsub x s)) t = fmul t (fsub s x)"
proof -
  have "fneg (fsub x s) = fsub s x"
    using fsub_swap [of s x] by simp
  then show ?thesis
    by (simp add: fmul_commute [of t])
qed

lemma subvention_elem: "fmul (fneg x) (Fin 5) = fmul (Fin (- 5)) x"
proof -
  have "fmul (Fin (- 5)) x = fmul (fneg (Fin 5)) x"
    by simp
  also have "\<dots> = fneg (fmul (Fin 5) x)"
    by (rule fmul_fneg_left)
  also have "\<dots> = fneg (fmul x (Fin 5))"
    by (simp add: fmul_commute [of x])
  finally show ?thesis
    by (simp add: fmul_fneg_left)
qed

section \<open>The formulas of the three arithmetic policies\<close>

text \<open>
  Claim C2.  For every action vector \<open>a\<close> (whatever the bound object and the contextual
  arguments), \<open>subvention_policy\<close> returns \<open>-5 * a\<close>, \<open>fine_policy\<close> returns
  \<open>5 * (1 - a)\<close> and \<open>mixed_policy\<close> returns \<open>5 * (0.5 - a)\<close>, computed entry by entry in
  float64 arithmetic: the result is the image of \<open>a\<close> under the formula, so it has the
  length and the ordering of \<open>a\<close>.  The source computes \<open>-(a - c) * 5\<close>; the two agree in
  every entry because rounding is symmetric under negation.
\<close>

theorem policy_formulas:
  "subvention_policy self a pri inco pump avgp crisis flows quota doe dcr = Inr (map (\<lambda>x. fmul (Fin (- 5)) x) a)
   \<and> fine_policy self a pri inco pump avgp crisis flows quota doe dcr
       = Inr (map (\<lambda>x. fmul (Fin 5) (fsub (Fin 1) x)) a)
   \<and> mixed_policy self a pri inco pump avgp crisis flows quota doe dcr
       = Inr (map (\<lambda>x. fmul (Fin 5) (fsub (Fin (1 / 2)) x)) a)
   \<and> length (map (\<lambda>x. fmul (Fin (- 5)) x) a) = length a
   \<and> length (map (\<lambda>x. fmul (Fin 5) (fsub (Fin 1) x)) a) = length a
   \<and> length (map (\<lambda>x. fmul (Fin 5) (fsub (Fin (1 / 2)) x)) a) = length a"
proof -
  have "subvention_policy self a pri inco pump avgp crisis flows quota doe dcr
          = Inr (map (\<lambda>x. fmul (Fin (- 5)) x) a)"
    by (simp add: subvention_policy_def astype_float_def neg_def mul_scalar_def
        subvention_elem)
  moreover have "fine_policy self a pri inco pump avgp crisis flows quota doe dcr
          = Inr (map (\<lambda>x. fmul (Fin 5) (fsub (Fin 1) x)) a)"
    by (simp add: fine_policy_def astype_float_def sub_scalar_def neg_def mul_scalar_def
        affine_elem)
  moreover have "mixed_policy self a pri inco pump avgp crisis flows quota doe dcr
          = Inr (map (\<lambda>x. fmul (Fin 5) (fsub (Fin (1 / 2)) x)) a)"
    by (simp add: mixed_policy_def astype_float_def sub_scalar_def neg_def mul_scalar_def
        affine_elem)
  ultimately show ?thesis
    by simp
qed

section \<open>The policy without incentive\<close>

text \<open>
  Claim C3.  For every actor count \<open>n \<ge> 0\<close> (the attribute \<^verbatim>\<open>nb_actors\<close> of the bound
  object) and every action vector \<open>a\<close> of length \<open>n\<close>, \<open>no_policy\<close> returns the zero
  vector of length \<open>n\<close>, which is the length of \<open>a\<close>.  No hypothesis is made on the entries
  of \<open>a\<close>: the result does not depend on them, in \<open>[0, 1]\<close> or not.
\<close>

theorem no_policy_zeros:
  assumes "nb_actors self = int n" and "length a = n"
  shows "no_policy self a pri inco pump avgp crisis flows quota doe dcr = Inr (replicate n (Fin 0))
         \<and> length (replicate n (Fin 0)) = length a
         \<and> (\<forall>z \<in> set (replicate n (Fin 0)). z = Fin 0)"
  using assms by (simp add: no_policy_def np_zeros_def)

theorem no_policy_zeros_witness:
  "nb_actors \<lparr>nb_actors = 3\<rparr> = int 3 \<and> length [Fin 0, Fin (1 / 2), Fin 1] = 3
   \<and> no_policy \<lparr>nb_actors = 3\<rparr> [Fin 0, Fin (1 / 2), Fin 1] [] [] [] [] [] [] [] 15 10
       = Inr [Fin 0, Fin 0, Fin 0]"
  using no_policy_zeros [of "\<lparr>nb_actors = 3\<rparr>" 3 "[Fin 0, Fin (1 / 2), Fin 1]"
      "[]" "[]" "[]" "[]" "[]" "[]" "[]" 15 10]
  by (simp add: numeral_3_eq_3)

section \<open>The contextual arguments do not influence the result\<close>

text \<open>
  Claim C8.  Two calls of the same policy with the same bound object and the same action
  vector return the same adjustment vector, whatever the values of \<^verbatim>\<open>actors_priority\<close>,
  \<^verbatim>\<open>avg_incomes\<close>, \<^verbatim>\<open>water_pump\<close>, \<^verbatim>\<open>avg_pump\<close>, \<^verbatim>\<open>is_crisis\<close>, \<^verbatim>\<open>water_flows\<close>,
  \<^verbatim>\<open>quota\<close>, \<^verbatim>\<open>DOE\<close> and \<^verbatim>\<open>DCR\<close> in the two calls.
\<close>

theorem policies_ignore_context:
  "no_policy self a pri inco pump avgp crisis flows quota doe dcr
     = no_policy self a pri' inco' pump' avgp' crisis' flows' quota' doe' dcr'
   \<and> subvention_policy self a pri inco pump avgp crisis flows quota doe dcr
     = subvention_policy self a pri' inco' pump' avgp' crisis' flows' quota' doe' dcr'
   \<and> fine_policy self a pri inco pump avgp crisis flows quota doe dcr
     = fine_policy self a pri' inco' pump' avgp' crisis' flows' quota' doe' dcr'
   \<and> mixed_policy self a pri inco pump avgp crisis flows quota doe dcr
     = mixed_policy self a pri' inco' pump' avgp' crisis' flows' quota' doe' dcr'"
  by (simp add: no_policy_def subvention_policy_def fine_policy_def mixed_policy_def)

section \<open>The Pareto filter computes the non-dominated rows\<close>

lemma fold_enumerate_update:
  "length eff = k + length xs \<Longrightarrow>
   fold (\<lambda>(i, c) e. e[i := f c]) (enumerate k xs) eff = take k eff @ map f xs"
proof (induction xs arbitrary: k eff)
  case Nil
  then show ?case by simp
next
  case (Cons x xs)
  from Cons.prems have k: "k < length eff" by simp
  have "fold (\<lambda>(i, c) e. e[i := f c]) (enumerate k (x # xs)) eff
        = fold (\<lambda>(i, c) e. e[i := f c]) (enumerate (Suc k) xs) (eff[k := f x])"
    by simp
  also have "\<dots> = take (Suc k) (eff[k := f x]) @ map f xs"
    using Cons.prems by (intro Cons.IH) simp
  also have "take (Suc k) (eff[k := f x]) = take k eff @ [f x]"
    using k by (simp add: take_Suc_conv_app_nth)
  finally show ?case by simp
qed

lemma is_pareto_efficient_map:
  "is_pareto_efficient costs = map (\<lambda>c. \<not> np_any (dominators costs c)) costs"
  by (simp add: is_pareto_efficient_def np_ones_bool_def fold_enumerate_update)

lemma dominators_map:
  "dominators costs c
   = map (\<lambda>r. list_all id (map2 fle r c) \<and> list_ex id (map2 flt r c)) costs"
  by (simp add: dominators_def np_and_def np_all_axis1_def np_any_axis1_def le_rows_def
      lt_rows_def zip_map_map zip_same_conv_map)

lemma flt_irrefl: "\<not> flt x x"
  by (cases x) simp_all

lemma fle_finite: "is_finite x \<Longrightarrow> is_finite y \<Longrightarrow> fle x y \<longleftrightarrow> valof x \<le> valof y"
  by (cases x; cases y) simp_all

lemma flt_finite: "is_finite x \<Longrightarrow> is_finite y \<Longrightarrow> flt x y \<longleftrightarrow> valof x < valof y"
  by (cases x; cases y) simp_all

lemma all_le_cols:
  "length r = m \<Longrightarrow> length c = m \<Longrightarrow>
   list_all id (map2 fle r c) \<longleftrightarrow> (\<forall>col<m. fle (r ! col) (c ! col))"
  by (simp add: list_all_length)

lemma any_lt_cols:
  "length r = m \<Longrightarrow> length c = m \<Longrightarrow>
   list_ex id (map2 flt r c) \<longleftrightarrow> (\<exists>col<m. flt (r ! col) (c ! col))"
  by (auto simp add: list_ex_length)

lemma any_map_nth: "list_ex id (map f xs) \<longleftrightarrow> (\<exists>j<length xs. f (xs ! j))"
  by (simp add: list_ex_length cong: conj_cong)

lemma is_pareto_efficient_nth:
  assumes rect: "\<forall>r \<in> set costs. length r = m" and i: "i < length costs"
  shows "is_pareto_efficient costs ! i \<longleftrightarrow>
         \<not> (\<exists>j<length costs. (\<forall>col<m. fle (costs ! j ! col) (costs ! i ! col))
                \<and> (\<exists>col<m. flt (costs ! j ! col) (costs ! i ! col)))"
proof -
  have len: "length (costs ! j) = m" if "j < length costs" for j
    using rect that by simp
  have "is_pareto_efficient costs ! i \<longleftrightarrow> \<not> np_any (dominators costs (costs ! i))"
    using i by (simp add: is_pareto_efficient_map)
  also have "np_any (dominators costs (costs ! i)) \<longleftrightarrow>
      (\<exists>j<length costs. list_all id (map2 fle (costs ! j) (costs ! i))
          \<and> list_ex id (map2 flt (costs ! j) (costs ! i)))"
    by (simp only: np_any_def dominators_map any_map_nth)
  also have "\<dots> \<longleftrightarrow> (\<exists>j<length costs. (\<forall>col<m. fle (costs ! j ! col) (costs ! i ! col))
                \<and> (\<exists>col<m. flt (costs ! j ! col) (costs ! i ! col)))"
    using len i by (simp add: all_le_cols [where m = m] any_lt_cols [where m = m] cong: conj_cong)
  finally show ?thesis .
qed

text \<open>
  Claim C1.  For every cost matrix with \<open>n_points \<ge> 1\<close> rows and \<open>n_objectives = m \<ge> 1\<close>
  columns of finite values, \<open>is_pareto_efficient\<close> returns a boolean vector of length
  \<open>n_points\<close> whose entry \<open>i\<close> is true if and only if there is no row \<open>j\<close> with
  \<open>costs[j][col] \<le> costs[i][col]\<close> in every column and \<open>costs[j][col] < costs[i][col]\<close>
  in at least one column, the comparisons being those of the numbers the entries stand for.
\<close>

theorem is_pareto_efficient_correct:
  assumes "1 \<le> length costs" and "1 \<le> m"
    and "\<forall>r \<in> set costs. length r = m \<and> (\<forall>x \<in> set r. is_finite x)"
  shows "length (is_pareto_efficient costs) = length costs
    \<and> (\<forall>i<length costs. is_pareto_efficient costs ! i \<longleftrightarrow>
          \<not> (\<exists>j<length costs. (\<forall>col<m. valof (costs ! j ! col) \<le> valof (costs ! i ! col))
                \<and> (\<exists>col<m. valof (costs ! j ! col) < valof (costs ! i ! col))))"
proof -
  have rect: "\<forall>r \<in> set costs. length r = m"
    using assms(3) by simp
  have fin: "is_finite (costs ! j ! col)" if "j < length costs" "col < m" for j col
    using assms(3) that by (metis nth_mem)
  have "is_pareto_efficient costs ! i \<longleftrightarrow>
          \<not> (\<exists>j<length costs. (\<forall>col<m. valof (costs ! j ! col) \<le> valof (costs ! i ! col))
                \<and> (\<exists>col<m. valof (costs ! j ! col) < valof (costs ! i ! col)))"
    if i: "i < length costs" for i
  proof -
    have "(\<forall>col<m. fle (costs ! j ! col) (costs ! i ! col))
            \<longleftrightarrow> (\<forall>col<m. valof (costs ! j ! col) \<le> valof (costs ! i ! col))"
      if "j < length costs" for j
      using fin that i by (simp add: fle_finite)
    moreover have "(\<exists>col<m. flt (costs ! j ! col) (costs ! i ! col))
            \<longleftrightarrow> (\<exists>col<m. valof (costs ! j ! col) < valof (costs ! i ! col))"
      if "j < length costs" for j
      using fin that i by (simp add: flt_finite cong: conj_cong)
    ultimately show ?thesis
      unfolding is_pareto_efficient_nth [OF rect i] by (simp cong: conj_cong)
  qed
  moreover have "length (is_pareto_efficient costs) = length costs"
    by (simp add: is_pareto_efficient_map)
  ultimately show ?thesis
    by simp
qed

theorem is_pareto_efficient_correct_witness:
  "is_pareto_efficient [[Fin 1, Fin 1], [Fin 2, Fin 2], [Fin 1, Fin 2]] = [True, False, False]
   \<and> length (is_pareto_efficient [[Fin 1, Fin 1], [Fin 2, Fin 2], [Fin 1, Fin 2]])
       = length [[Fin 1, Fin 1], [Fin 2, Fin 2], [Fin 1, Fin 2]]
   \<and> (is_pareto_efficient [[Fin 1, Fin 1], [Fin 2, Fin 2], [Fin 1, Fin 2]] ! 2 \<longleftrightarrow>
       \<not> (\<exists>j<length [[Fin 1, Fin 1], [Fin 2, Fin 2], [Fin 1, Fin 2]].
            (\<forall>col<2. valof ([[Fin 1, Fin 1], [Fin 2, Fin 2], [Fin 1, Fin 2]] ! j ! col)
                        \<le> valof ([[Fin 1, Fin 1], [Fin 2, Fin 2], [Fin 1, Fin 2]] ! 2 ! col))
          \<and> (\<exists>col<2. valof ([[Fin 1, Fin 1], [Fin 2, Fin 2], [Fin 1, Fin 2]] ! j ! col)
                        < valof ([[Fin 1, Fin 1], [Fin 2, Fin 2], [Fin 1, Fin 2]] ! 2 ! col))))"
proof -
  let ?M = "[[Fin 1, Fin 1], [Fin 2, Fin 2], [Fin 1, Fin 2]]"
  have h1: "1 \<le> length ?M" and h2: "(1::nat) \<le> 2"
    and h3: "\<forall>r \<in> set ?M. length r = 2 \<and> (\<forall>x \<in> set r. is_finite x)"
    and h4: "2 < length ?M"
    by simp_all
  note T = is_pareto_efficient_correct [OF h1 h2 h3]
  have "is_pareto_efficient ?M = [True, False, False]"
    by code_simp
  then show ?thesis
    using T [THEN conjunct1] T [THEN conjunct2, rule_format, OF h4] by (intro conjI)
qed

section \<open>Rows with the same costs\<close>

text \<open>
  Claim C7.  When two rows \<open>i\<close> and \<open>j\<close> of a cost matrix are the same cost vector, neither
  is dominated by the other: in the pass for row \<open>i\<close> the domination flag of row \<open>j\<close> is
  false, and conversely, so the two rows get the same entry of the mask.  In particular
  the matrix \<open>[[1, 1], [1, 1]]\<close> yields the mask \<open>[True, True]\<close>.
\<close>

theorem identical_rows_not_dominated:
  assumes "i < length costs" and "j < length costs" and "costs ! i = costs ! j"
  shows "\<not> dominators costs (costs ! i) ! j \<and> \<not> dominators costs (costs ! j) ! i
    \<and> is_pareto_efficient costs ! i = is_pareto_efficient costs ! j
    \<and> is_pareto_efficient [[Fin 1, Fin 1], [Fin 1, Fin 1]] = [True, True]"
proof -
  have irrefl: "\<not> list_ex id (map2 flt r r)" for r
    by (simp add: list_ex_iff zip_same_conv_map flt_irrefl)
  have "\<not> dominators costs (costs ! i) ! j"
    using assms by (simp add: dominators_map irrefl)
  moreover have "\<not> dominators costs (costs ! j) ! i"
    using assms by (simp add: dominators_map irrefl)
  moreover have "is_pareto_efficient costs ! i = is_pareto_efficient costs ! j"
    using assms by (simp add: is_pareto_efficient_map)
  moreover have "is_pareto_efficient [[Fin 1, Fin 1], [Fin 1, Fin 1]] = [True, True]"
    by (simp add: is_pareto_efficient_map dominators_map np_any_def)
  ultimately show ?thesis
    by simp
qed

theorem identical_rows_not_dominated_witness:
  "\<not> dominators [[Fin 1, Fin 1], [Fin 1, Fin 1]] [Fin 1, Fin 1] ! 1
   \<and> \<not> dominators [[Fin 1, Fin 1], [Fin 1, Fin 1]] [Fin 1, Fin 1] ! 0
   \<and> is_pareto_efficient [[Fin 1, Fin 1], [Fin 1, Fin 1]] = [True, True]"
  using identical_rows_not_dominated [of 0 "[[Fin 1, Fin 1], [Fin 1, Fin 1]]" 1]
  by simp

section \<open>Vectors of inconsistent lengths\<close>

lemma arithmetic_policies_return:
  "subvention_policy self a pri inco pump avgp crisis flows quota doe dcr
     = Inr (map (\<lambda>x. fmul (fneg x) (Fin 5)) a)"
  "fine_policy self a pri inco pump avgp crisis flows quota doe dcr
     = Inr (map (\<lambda>x. fmul (fneg (fsub x (Fin 1))) (Fin 5)) a)"
  "mixed_policy self a pri inco pump avgp crisis flows quota doe dcr
     = Inr (map (\<lambda>x. fmul (fneg (fsub x (Fin (1 / 2)))) (Fin 5)) a)"
  by (simp_all add: subvention_policy_def fine_policy_def mixed_policy_def astype_float_def
      sub_scalar_def neg_def mul_scalar_def)

text \<open>
  Claim C4 says that some call with per-actor vectors of inconsistent lengths fails with
  a ShapeMismatch error.  There is no such call: no policy reads a contextual vector, so
  no policy compares its length with anything.
\<close>

theorem shape_mismatch_never_raised:
  "\<not> (\<exists>self a pri inco pump avgp crisis flows quota doe dcr.
        \<not> (length pri = length a \<and> length inco = length a \<and> length pump = length a
           \<and> length avgp = length a \<and> length crisis = length a \<and> length flows = length a
           \<and> length quota = length a)
        \<and> (fine_policy self a pri inco pump avgp crisis flows quota doe dcr = Inl ShapeMismatch
           \<or> mixed_policy self a pri inco pump avgp crisis flows quota doe dcr = Inl ShapeMismatch
           \<or> subvention_policy self a pri inco pump avgp crisis flows quota doe dcr
               = Inl ShapeMismatch
           \<or> no_policy self a pri inco pump avgp crisis flows quota doe dcr = Inl ShapeMismatch))"
  by (simp add: arithmetic_policies_return no_policy_def np_zeros_def)

text \<open>
  Claim C4, as the code has it.  For every input whose per-actor vectors have inconsistent
  lengths, no call fails with a ShapeMismatch error: \<open>fine_policy\<close>, \<open>mixed_policy\<close> and
  \<open>subvention_policy\<close> return one adjustment per entry of the action vector, and
  \<open>no_policy\<close> returns what \<^verbatim>\<open>np.zeros(self.nb_actors)\<close> returns.  The contextual vectors
  are neither truncated nor broadcast: they are not read.
\<close>

theorem inconsistent_lengths_accepted:
  assumes "\<not> (length pri = length a \<and> length inco = length a \<and> length pump = length a
           \<and> length avgp = length a \<and> length crisis = length a \<and> length flows = length a
           \<and> length quota = length a)"
  shows "(\<exists>r. fine_policy self a pri inco pump avgp crisis flows quota doe dcr = Inr r
              \<and> length r = length a)
    \<and> (\<exists>r. mixed_policy self a pri inco pump avgp crisis flows quota doe dcr = Inr r
              \<and> length r = length a)
    \<and> (\<exists>r. subvention_policy self a pri inco pump avgp crisis flows quota doe dcr = Inr r
              \<and> length r = length a)
    \<and> no_policy self a pri inco pump avgp crisis flows quota doe dcr = np_zeros (nb_actors self)
    \<and> no_policy self a pri inco pump avgp crisis flows quota doe dcr \<noteq> Inl ShapeMismatch"
  by (simp add: arithmetic_policies_return no_policy_def np_zeros_def)

theorem inconsistent_lengths_accepted_witness:
  "length [Fin 1, Fin 2, Fin 3] \<noteq> length [Fin 0, Fin 1]
   \<and> fine_policy \<lparr>nb_actors = 2\<rparr> [Fin 0, Fin 1] [Fin 1, Fin 2, Fin 3] [] [] [] [] [] [] 15 10
       = Inr [Fin 5, Fin 0]
   \<and> no_policy \<lparr>nb_actors = 2\<rparr> [Fin 0, Fin 1] [Fin 1, Fin 2, Fin 3] [] [] [] [] [] [] 15 10
       = Inr [Fin 0, Fin 0]"
proof -
  have "fine_policy \<lparr>nb_actors = 2\<rparr> [Fin 0, Fin 1] [Fin 1, Fin 2, Fin 3] [] [] [] [] [] [] 15 10
       = Inr [Fin 5, Fin 0]"
    by code_simp
  moreover have "no_policy \<lparr>nb_actors = 2\<rparr> [Fin 0, Fin 1] [Fin 1, Fin 2, Fin 3] [] [] [] [] [] [] 15 10
       = Inr [Fin 0, Fin 0]"
    using inconsistent_lengths_accepted [of "[Fin 1, Fin 2, Fin 3]" "[Fin 0, Fin 1]"
        "[]" "[]" "[]" "[]" "[]" "[]" "\<lparr>nb_actors = 2\<rparr>" 15 10]
    by (simp add: np_zeros_def numeral_2_eq_2)
  ultimately show ?thesis
    by simp
qed

section \<open>Non-finite values\<close>

lemma fle_NaN_right: "\<not> fle x NaN"
  by (cases x) simp_all

lemma nonfinite_affine:
  "\<not> is_finite x \<Longrightarrow> \<not> is_finite (fmul (fneg (fsub x (Fin c))) (Fin 5))"
  by (cases x) (simp_all add: inf_signed_def)

lemma nonfinite_subvention: "\<not> is_finite x \<Longrightarrow> \<not> is_finite (fmul (fneg x) (Fin 5))"
  by (cases x) (simp_all add: inf_signed_def)

lemma nan_row_efficient:
  assumes rect: "\<forall>r \<in> set costs. length r = m" and i: "i < length costs"
    and nan: "NaN \<in> set (costs ! i)"
  shows "is_pareto_efficient costs ! i"
proof -
  have "length (costs ! i) = m"
    using rect i by simp
  with nan obtain col where col: "col < m" "costs ! i ! col = NaN"
    by (auto simp add: in_set_conv_nth)
  then have "\<not> (\<forall>col<m. fle (costs ! j ! col) (costs ! i ! col))" for j
    using fle_NaN_right by auto
  then show ?thesis
    unfolding is_pareto_efficient_nth [OF rect i] by simp
qed

text \<open>
  Claim C5 says that every input with a non-finite value makes the call raise an
  InvalidInput error.  Here are an action vector with a NaN and an infinity, and a cost
  matrix with a NaN: both calls return a result.
\<close>

theorem nonfinite_input_counterexample:
  "\<not> is_finite NaN \<and> \<not> is_finite PInf
   \<and> subvention_policy \<lparr>nb_actors = 2\<rparr> [NaN, PInf] [] [] [] [] [] [] [] 15 10
       = Inr [NaN, NInf]
   \<and> subvention_policy \<lparr>nb_actors = 2\<rparr> [NaN, PInf] [] [] [] [] [] [] [] 15 10
       \<noteq> Inl InvalidInput
   \<and> is_pareto_efficient [[NaN, Fin 1], [Fin 0, Fin 0]] = [True, True]"
  by code_simp

text \<open>
  Claim C5, as the code has it.  No input with a non-finite value makes a call raise an
  InvalidInput error.  Each arithmetic policy returns a vector of the length of the action
  vector in which every non-finite action gives a non-finite adjustment, a NaN giving a
  NaN.  \<open>is_pareto_efficient\<close> returns a mask of the length of the matrix in which every
  row that contains a NaN is marked efficient, every comparison with a NaN being false.
\<close>

theorem nonfinite_values_propagate:
  assumes "\<forall>r \<in> set costs. length r = m"
  shows "(\<exists>r. subvention_policy self a pri inco pump avgp crisis flows quota doe dcr = Inr r
            \<and> length r = length a
            \<and> (\<forall>k<length a. \<not> is_finite (a ! k) \<longrightarrow> \<not> is_finite (r ! k))
            \<and> (\<forall>k<length a. a ! k = NaN \<longrightarrow> r ! k = NaN))
    \<and> (\<exists>r. fine_policy self a pri inco pump avgp crisis flows quota doe dcr = Inr r
            \<and> length r = length a
            \<and> (\<forall>k<length a. \<not> is_finite (a ! k) \<longrightarrow> \<not> is_finite (r ! k))
            \<and> (\<forall>k<length a. a ! k = NaN \<longrightarrow> r ! k = NaN))
    \<and> (\<exists>r. mixed_policy self a pri inco pump avgp crisis flows quota doe dcr = Inr r
            \<and> length r = length a
            \<and> (\<forall>k<length a. \<not> is_finite (a ! k) \<longrightarrow> \<not> is_finite (r ! k))
            \<and> (\<forall>k<length a. a ! k = NaN \<longrightarrow> r ! k = NaN))
    \<and> length (is_pareto_efficient costs) = length costs
    \<and> (\<forall>i<length costs. NaN \<in> set (costs ! i) \<longrightarrow> is_pareto_efficient costs ! i)"
proof -
  have "\<exists>r. subvention_policy self a pri inco pump avgp crisis flows quota doe dcr = Inr r
            \<and> length r = length a
            \<and> (\<forall>k<length a. \<not> is_finite (a ! k) \<longrightarrow> \<not> is_finite (r ! k))
            \<and> (\<forall>k<length a. a ! k = NaN \<longrightarrow> r ! k = NaN)"
    by (simp add: arithmetic_policies_return nonfinite_subvention)
  moreover have "\<exists>r. fine_policy self a pri inco pump avgp crisis flows quota doe dcr = Inr r
            \<and> length r = length a
            \<and> (\<forall>k<length a. \<not> is_finite (a ! k) \<longrightarrow> \<not> is_finite (r ! k))
            \<and> (\<forall>k<length a. a ! k = NaN \<longrightarrow> r ! k = NaN)"
    by (simp add: arithmetic_policies_return nonfinite_affine)
  moreover have "\<exists>r. mixed_policy self a pri inco pump avgp crisis flows quota doe dcr = Inr r
            \<and> length r = length a
            \<and> (\<forall>k<length a. \<not> is_finite (a ! k) \<longrightarrow> \<not> is_finite (r ! k))
            \<and> (\<forall>k<length a. a ! k = NaN \<longrightarrow> r ! k = NaN)"
    by (simp add: arithmetic_policies_return nonfinite_affine)
  moreover have "length (is_pareto_efficient costs) = length costs"
    by (simp add: is_pareto_efficient_map)
  moreover have "\<forall>i<length costs. NaN \<in> set (costs ! i) \<longrightarrow> is_pareto_efficient costs ! i"
    using nan_row_efficient [OF assms] by blast
  ultimately show ?thesis
    by (intro conjI)
qed

theorem nonfinite_values_propagate_witness:
  "is_pareto_efficient [[NaN, Fin 1], [Fin 0, Fin 0]] ! 0
   \<and> length (is_pareto_efficient [[NaN, Fin 1], [Fin 0, Fin 0]])
       = length [[NaN, Fin 1], [Fin 0, Fin 0]]"
proof -
  have rect: "\<forall>r \<in> set [[NaN, Fin 1], [Fin 0, Fin 0]]. length r = 2"
    by simp
  have row: "0 < length [[NaN, Fin 1], [Fin 0, Fin 0]]"
    and nan: "NaN \<in> set ([[NaN, Fin 1], [Fin 0, Fin 0]] ! 0)"
    by simp_all
  note T = nonfinite_values_propagate [OF rect, of "\<lparr>nb_actors = 1\<rparr>" "[NaN]"
      "[]" "[]" "[]" "[]" "[]" "[]" "[]" 15 10]
  have "is_pareto_efficient [[NaN, Fin 1], [Fin 0, Fin 0]] ! 0"
    using T row nan by blast
  moreover have "length (is_pareto_efficient [[NaN, Fin 1], [Fin 0, Fin 0]])
       = length [[NaN, Fin 1], [Fin 0, Fin 0]]"
    using T by blast
  ultimately show ?thesis
    by (intro conjI)
qed

section \<open>The spacing of the three regimes\<close>

lemma pow2_powi: "pow2 e = 2 powi e"
  by (simp add: pow2_def power_int_def power_one_over inverse_eq_divide)

lemma pow2_pos: "0 < pow2 e"
  by (simp add: pow2_powi)

lemma pow2_add: "pow2 (a + b) = pow2 a * pow2 b"
  by (simp add: pow2_powi power_int_add)

lemma pow2_mono: "a \<le> b \<Longrightarrow> pow2 a \<le> pow2 b"
  by (simp add: pow2_powi power_int_increasing)

lemma pow2_strict_mono: "a < b \<Longrightarrow> pow2 a < pow2 b"
  by (simp add: pow2_powi power_int_strict_increasing)

lemma pow2_less_cancel: "pow2 a < pow2 b \<Longrightarrow> a < b"
  using pow2_mono [of b a] by (cases "a < b") auto

lemma pow2_minus_one: "pow2 (e - 1) = pow2 e / 2"
  using pow2_add [of "e - 1" 1] by (simp add: pow2_def)

lemma ilog2_lower:
  assumes "0 < x"
  shows "pow2 (ilog2 x) \<le> x"
proof -
  obtain p q where pq: "quotient_of x = (p, q)"
    by (cases "quotient_of x")
  then have q: "0 < q" and x: "x = of_int p / of_int q"
    by (simp_all add: quotient_of_denom_pos quotient_of_div)
  with assms have p: "0 < p"
    by (simp add: zero_less_divide_iff)
  let ?d = "bitlen p - bitlen q"
  have bp: "2 ^ nat (bitlen p - 1) \<le> p" and bq: "q < 2 ^ nat (bitlen q)"
    using bitlen_bounds [OF p] bitlen_bounds [OF q] by simp_all
  have p1: "1 \<le> bitlen p"
    using p by (simp add: bitlen_alt_def)
  have "pow2 (?d - 1) \<le> x"
  proof -
    have "pow2 (?d - 1) = pow2 (bitlen p - 1) * pow2 (- bitlen q)"
      using pow2_add [of "bitlen p - 1" "- bitlen q"] by (simp add: algebra_simps)
    also have "pow2 (bitlen p - 1) = of_int (2 ^ nat (bitlen p - 1))"
      using p1 by (simp add: pow2_def)
    also have "pow2 (- bitlen q) = 1 / of_int (2 ^ nat (bitlen q))"
      using bitlen_nonneg [of q] by (auto simp add: pow2_def)
    finally have e: "pow2 (?d - 1) = of_int (2 ^ nat (bitlen p - 1)) / of_int (2 ^ nat (bitlen q))"
      by simp
    have "of_int (2 ^ nat (bitlen p - 1)) / of_int (2 ^ nat (bitlen q))
          \<le> (of_int p :: rat) / of_int (2 ^ nat (bitlen q))"
      using bp by (intro divide_right_mono) (simp_all del: of_int_power)
    also have "\<dots> \<le> of_int p / of_int q"
      using bq q p by (intro divide_left_mono) (simp_all del: of_int_power add: less_imp_le)
    finally show ?thesis
      by (simp only: e x)
  qed
  then show ?thesis
    by (simp add: ilog2_def pq Let_def)
qed

lemma ilog2_less: "0 < x \<Longrightarrow> x < pow2 k \<Longrightarrow> ilog2 x < k"
  using ilog2_lower [of x] by (intro pow2_less_cancel) simp

lemma ilog2_zero: "ilog2 0 = - 2"
  by code_simp

lemma round_half_even_error: "\<bar>of_int (round_half_even q) - q\<bar> \<le> 1 / 2"
proof -
  have "of_int \<lfloor>q\<rfloor> \<le> q" "q < of_int \<lfloor>q\<rfloor> + 1"
    by linarith+
  then show ?thesis
    by (auto simp add: round_half_even_def Let_def abs_le_iff)
qed

lemma round_half_even_nonneg: "0 \<le> q \<Longrightarrow> 0 \<le> round_half_even q"
  by (auto simp add: round_half_even_def Let_def)

lemma round64_error:
  assumes "\<bar>x\<bar> < pow2 k" and "- 1021 \<le> k" and "k \<le> 1023"
  shows "\<exists>y. round64 x = Fin y \<and> \<bar>y - x\<bar> \<le> pow2 (k - 54)"
proof (cases "x = 0")
  case True
  then show ?thesis
    using pow2_pos [of "k - 54"] by (simp add: round64_def less_imp_le)
next
  case False
  define e where "e = max (ilog2 \<bar>x\<bar>) (- 1022)"
  define u where "u = pow2 (e - 52)"
  define n where "n = round_half_even (\<bar>x\<bar> / u)"
  define y where "y = of_int n * u"
  from False assms(1) have "ilog2 \<bar>x\<bar> < k"
    by (intro ilog2_less) simp_all
  with assms(2) have e: "e \<le> k - 1"
    by (simp add: e_def)
  have u0: "0 < u"
    by (simp add: u_def pow2_pos)
  have "u \<le> pow2 (k - 53)"
    unfolding u_def using e by (intro pow2_mono) simp
  also have "pow2 (k - 53) = 2 * pow2 (k - 54)"
    using pow2_minus_one [of "k - 53"] by simp
  finally have u: "u / 2 \<le> pow2 (k - 54)"
    by simp
  have n0: "0 \<le> n"
    unfolding n_def using u0 by (intro round_half_even_nonneg) simp
  have "\<bar>y - \<bar>x\<bar>\<bar> = u * \<bar>of_int n - \<bar>x\<bar> / u\<bar>"
  proof -
    have "y - \<bar>x\<bar> = u * (of_int n - \<bar>x\<bar> / u)"
      using u0 by (simp add: y_def algebra_simps)
    then show ?thesis
      using u0 by (simp add: abs_mult)
  qed
  also have "\<dots> \<le> u * (1 / 2)"
    unfolding n_def using u0 round_half_even_error [of "\<bar>x\<bar> / u"]
    by (intro mult_left_mono) simp_all
  finally have err: "\<bar>y - \<bar>x\<bar>\<bar> \<le> pow2 (k - 54)"
    using u by simp
  have y0: "0 \<le> y"
    using n0 u0 by (simp add: y_def)
  have "pow2 (k - 54) \<le> pow2 k"
    by (intro pow2_mono) simp
  with err assms(1) have "y < 2 * pow2 k"
    by linarith
  also have "2 * pow2 k = pow2 (k + 1)"
    using pow2_add [of k 1] by (simp add: pow2_def)
  also have "\<dots> \<le> pow2 1024"
    using assms(3) by (intro pow2_mono) simp
  finally have y1: "y < pow2 1024" .
  have no: "\<not> 1024 \<le> ilog2 y"
  proof (cases "y = 0")
    case True
    then show ?thesis by (simp add: ilog2_zero)
  next
    case False
    with y0 have "0 < y" by simp
    from ilog2_less [OF this y1] show ?thesis by simp
  qed
  have r: "round64 x = Fin (if x < 0 then - y else y)"
    using False no by (simp add: round64_def Let_def y_def n_def u_def e_def)
  have "\<bar>(if x < 0 then - y else y) - x\<bar> = \<bar>y - \<bar>x\<bar>\<bar>"
    by (simp add: abs_if)
  with err r show ?thesis
    by simp
qed

lemma pow2_values:
  "pow2 1 = 2" "pow2 0 = 1" "pow2 2 = 4" "pow2 3 = 8"
  "pow2 (- 54) = 1 / 2 ^ 54" "pow2 (- 53) = 1 / 2 ^ 53" "pow2 (- 52) = 1 / 2 ^ 52"
  "pow2 (- 51) = 1 / 2 ^ 51"
  by (simp_all add: pow2_def)

lemma spacing_entry_bound:
  assumes "0 \<le> r" and "r \<le> 1"
  shows "\<exists>d1 d2.
      fsub (fmul (fneg (fsub (Fin r) (Fin 1))) (Fin 5))
           (fmul (fneg (fsub (Fin r) (Fin (1 / 2)))) (Fin 5)) = Fin d1
    \<and> fsub (fmul (fneg (fsub (Fin r) (Fin (1 / 2)))) (Fin 5))
           (fmul (fneg (Fin r)) (Fin 5)) = Fin d2
    \<and> \<bar>d1 - 5 / 2\<bar> \<le> 1 / 2 ^ 49 \<and> \<bar>d2 - 5 / 2\<bar> \<le> 1 / 2 ^ 49 \<and> \<bar>d1 - d2\<bar> \<le> 1 / 2 ^ 48"
proof -
  from assms have "\<bar>r - 1\<bar> < pow2 1"
    by (simp add: pow2_values abs_if)
  from round64_error [OF this] obtain t1
    where t1: "round64 (r - 1) = Fin t1" "\<bar>t1 - (r - 1)\<bar> \<le> 1 / 2 ^ 53"
    by (auto simp add: pow2_values)
  from assms t1(2) have "\<bar>- t1 * 5\<bar> < pow2 3"
    by (simp add: pow2_values abs_if split: if_splits; linarith)
  from round64_error [OF this] obtain f
    where f: "round64 (- t1 * 5) = Fin f" "\<bar>f - (- t1 * 5)\<bar> \<le> 1 / 2 ^ 51"
    by (auto simp add: pow2_values)
  from assms have "\<bar>r - 1 / 2\<bar> < pow2 0"
    by (simp add: pow2_values abs_if)
  from round64_error [OF this] obtain t2
    where t2: "round64 (r - 1 / 2) = Fin t2" "\<bar>t2 - (r - 1 / 2)\<bar> \<le> 1 / 2 ^ 54"
    by (auto simp add: pow2_values)
  from assms t2(2) have "\<bar>- t2 * 5\<bar> < pow2 2"
    by (simp add: pow2_values abs_if split: if_splits; linarith)
  from round64_error [OF this] obtain m
    where m: "round64 (- t2 * 5) = Fin m" "\<bar>m - (- t2 * 5)\<bar> \<le> 1 / 2 ^ 52"
    by (auto simp add: pow2_values)
  from assms have "\<bar>- r * 5\<bar> < pow2 3"
    by (simp add: pow2_values abs_if)
  from round64_error [OF this] obtain s
    where s: "round64 (- r * 5) = Fin s" "\<bar>s - (- r * 5)\<bar> \<le> 1 / 2 ^ 51"
    by (auto simp add: pow2_values)
  have ef: "\<bar>f - 5 * (1 - r)\<bar> \<le> 9 / 2 ^ 53"
    using t1(2) f(2) by (simp add: abs_if split: if_splits; linarith)
  have em: "\<bar>m - 5 * (1 / 2 - r)\<bar> \<le> 9 / 2 ^ 54"
    using t2(2) m(2) by (simp add: abs_if split: if_splits; linarith)
  have es: "\<bar>s - (- 5 * r)\<bar> \<le> 1 / 2 ^ 51"
    using s(2) by (simp add: abs_if split: if_splits; linarith)
  from ef em have "\<bar>f - m\<bar> < pow2 2"
    by (simp add: pow2_values abs_if split: if_splits; linarith)
  from round64_error [OF this] obtain d1
    where d1: "round64 (f - m) = Fin d1" "\<bar>d1 - (f - m)\<bar> \<le> 1 / 2 ^ 52"
    by (auto simp add: pow2_values)
  from em es have "\<bar>m - s\<bar> < pow2 2"
    by (simp add: pow2_values abs_if split: if_splits; linarith)
  from round64_error [OF this] obtain d2
    where d2: "round64 (m - s) = Fin d2" "\<bar>d2 - (m - s)\<bar> \<le> 1 / 2 ^ 52"
    by (auto simp add: pow2_values)
  have b1: "\<bar>d1 - 5 / 2\<bar> \<le> 31 / 2 ^ 54"
    using ef em d1(2) by (simp add: abs_if split: if_splits; linarith)
  have b2: "\<bar>d2 - 5 / 2\<bar> \<le> 21 / 2 ^ 54"
    using em es d2(2) by (simp add: abs_if split: if_splits; linarith)
  have "fsub (fmul (fneg (fsub (Fin r) (Fin 1))) (Fin 5))
           (fmul (fneg (fsub (Fin r) (Fin (1 / 2)))) (Fin 5)) = Fin d1"
    by (simp only: fsub.simps fneg.simps fmul.simps t1(1) f(1) t2(1) m(1) d1(1))
  moreover have "fsub (fmul (fneg (fsub (Fin r) (Fin (1 / 2)))) (Fin 5))
           (fmul (fneg (Fin r)) (Fin 5)) = Fin d2"
    by (simp only: fsub.simps fneg.simps fmul.simps t2(1) m(1) s(1) d2(1))
  moreover have "\<bar>d1 - 5 / 2\<bar> \<le> 1 / 2 ^ 49" "\<bar>d2 - 5 / 2\<bar> \<le> 1 / 2 ^ 49"
    "\<bar>d1 - d2\<bar> \<le> 1 / 2 ^ 48"
    using b1 b2 by (simp_all add: abs_if split: if_splits; linarith)+
  ultimately show ?thesis
    by blast
qed

lemma sub_arrays_map: "sub_arrays (map f a) (map g a) = map (\<lambda>x. fsub (f x) (g x)) a"
  by (simp add: sub_arrays_def zip_map_map zip_same_conv_map)

lemma example_outputs:
  "map (\<lambda>x. fmul (fneg (fsub x (Fin 1))) (Fin 5)) [Fin 0, Fin (1 / 2), Fin 1]
     = [Fin 5, Fin (5 / 2), Fin 0]"
  "map (\<lambda>x. fmul (fneg (fsub x (Fin (1 / 2)))) (Fin 5)) [Fin 0, Fin (1 / 2), Fin 1]
     = [Fin (5 / 2), Fin 0, Fin (- (5 / 2))]"
  "map (\<lambda>x. fmul (fneg x) (Fin 5)) [Fin 0, Fin (1 / 2), Fin 1]
     = [Fin 0, Fin (- (5 / 2)), Fin (- 5)]"
  by code_simp+

lemma example_differences:
  "sub_arrays [Fin 5, Fin (5 / 2), Fin 0] [Fin (5 / 2), Fin 0, Fin (- (5 / 2))]
     = [Fin (5 / 2), Fin (5 / 2), Fin (5 / 2)]"
  "sub_arrays [Fin (5 / 2), Fin 0, Fin (- (5 / 2))] [Fin 0, Fin (- (5 / 2)), Fin (- 5)]
     = [Fin (5 / 2), Fin (5 / 2), Fin (5 / 2)]"
  by code_simp+

lemma unit_interval: "fle (Fin 0) x \<Longrightarrow> fle x (Fin 1) \<Longrightarrow> \<exists>r. x = Fin r \<and> 0 \<le> r \<and> r \<le> 1"
  by (cases x) simp_all

text \<open>
  Claim C6 says that \<open>fine(a) - mixed(a)\<close> equals \<open>mixed(a) - subvention(a)\<close> for every
  action vector.  In float64 arithmetic the two differences can differ in the last bit.
  For the action \<open>0.02\<close> (the double \<open>5764607523034235 / 2 ^ 58\<close>) the policies return
  \<open>4.9\<close>, \<open>2.4\<close> and \<open>-0.1\<close> (the doubles nearest to them), and the differences are
  \<open>2.5000000000000004\<close> and \<open>2.5\<close>.
\<close>

theorem spacing_law_counterexample:
  "fine_policy \<lparr>nb_actors = 1\<rparr> [Fin (5764607523034235 / 288230376151711744)]
       [] [] [] [] [] [] [] 15 10 = Inr [Fin (2758454771764429 / 562949953421312)]
   \<and> mixed_policy \<lparr>nb_actors = 1\<rparr> [Fin (5764607523034235 / 288230376151711744)]
       [] [] [] [] [] [] [] 15 10 = Inr [Fin (5404319552844595 / 2251799813685248)]
   \<and> subvention_policy \<lparr>nb_actors = 1\<rparr> [Fin (5764607523034235 / 288230376151711744)]
       [] [] [] [] [] [] [] 15 10 = Inr [Fin (- (3602879701896397 / 36028797018963968))]
   \<and> sub_arrays [Fin (2758454771764429 / 562949953421312)]
         [Fin (5404319552844595 / 2251799813685248)]
       = [Fin (5629499534213121 / 2251799813685248)]
   \<and> sub_arrays [Fin (5404319552844595 / 2251799813685248)]
         [Fin (- (3602879701896397 / 36028797018963968))]
       = [Fin (5 / 2)]
   \<and> sub_arrays [Fin (2758454771764429 / 562949953421312)]
         [Fin (5404319552844595 / 2251799813685248)]
       \<noteq> sub_arrays [Fin (5404319552844595 / 2251799813685248)]
         [Fin (- (3602879701896397 / 36028797018963968))]"
  by code_simp

text \<open>
  Outside the range of the actions the spacing is lost altogether: for the action
  \<open>2 ^ 53\<close> the three policies return \<open>- (5 * 2 ^ 53 - 8)\<close>, \<open>- 5 * 2 ^ 53\<close> and
  \<open>- 5 * 2 ^ 53\<close>, and the two differences are \<open>8\<close> and \<open>0\<close>.
\<close>

lemma spacing_gap_large_action:
  "map (\<lambda>x. fmul (fneg (fsub x (Fin 1))) (Fin 5)) [Fin 9007199254740992]
     = [Fin (- 45035996273704952)]"
  "map (\<lambda>x. fmul (fneg (fsub x (Fin (1 / 2)))) (Fin 5)) [Fin 9007199254740992]
     = [Fin (- 45035996273704960)]"
  "map (\<lambda>x. fmul (fneg x) (Fin 5)) [Fin 9007199254740992] = [Fin (- 45035996273704960)]"
  "sub_arrays [Fin (- 45035996273704952)] [Fin (- 45035996273704960)] = [Fin 8]"
  "sub_arrays [Fin (- 45035996273704960)] [Fin (- 45035996273704960)] = [Fin 0]"
  by code_simp+

text \<open>
  Claim C6, as the code has it.  For every action vector \<open>a\<close> with entries in \<open>[0, 1]\<close>,
  the range of the actions, \<open>fine_policy(a) - mixed_policy(a)\<close> and
  \<open>mixed_policy(a) - subvention_policy(a)\<close> have the length of \<open>a\<close> and agree entry by
  entry up to rounding: both entries are finite, within \<open>2 ^ - 49\<close> of \<open>2.5\<close>, and within
  \<open>2 ^ - 48\<close> of each other.  For \<open>a = [0.0, 0.5, 1.0]\<close> the outputs are
  \<open>fine = [5, 2.5, 0]\<close>, \<open>mixed = [2.5, 0, -2.5]\<close> and \<open>subvention = [0, -2.5, -5]\<close>, and
  the two differences are equal.
\<close>

theorem spacing_law_up_to_rounding:
  assumes "\<forall>x \<in> set a. fle (Fin 0) x \<and> fle x (Fin 1)"
    and "fine_policy self a pri inco pump avgp crisis flows quota doe dcr = Inr f"
    and "mixed_policy self a pri inco pump avgp crisis flows quota doe dcr = Inr m"
    and "subvention_policy self a pri inco pump avgp crisis flows quota doe dcr = Inr s"
  shows "length (sub_arrays f m) = length a \<and> length (sub_arrays m s) = length a
    \<and> (\<forall>k<length a. \<exists>d1 d2. sub_arrays f m ! k = Fin d1 \<and> sub_arrays m s ! k = Fin d2
          \<and> \<bar>d1 - 5 / 2\<bar> \<le> 1 / 2 ^ 49 \<and> \<bar>d2 - 5 / 2\<bar> \<le> 1 / 2 ^ 49
          \<and> \<bar>d1 - d2\<bar> \<le> 1 / 2 ^ 48)
    \<and> fine_policy self [Fin 0, Fin (1 / 2), Fin 1] pri inco pump avgp crisis flows quota doe dcr
        = Inr [Fin 5, Fin (5 / 2), Fin 0]
    \<and> mixed_policy self [Fin 0, Fin (1 / 2), Fin 1] pri inco pump avgp crisis flows quota doe dcr
        = Inr [Fin (5 / 2), Fin 0, Fin (- (5 / 2))]
    \<and> subvention_policy self [Fin 0, Fin (1 / 2), Fin 1] pri inco pump avgp crisis flows quota
         doe dcr = Inr [Fin 0, Fin (- (5 / 2)), Fin (- 5)]
    \<and> sub_arrays [Fin 5, Fin (5 / 2), Fin 0] [Fin (5 / 2), Fin 0, Fin (- (5 / 2))]
        = sub_arrays [Fin (5 / 2), Fin 0, Fin (- (5 / 2))] [Fin 0, Fin (- (5 / 2)), Fin (- 5)]"
proof -
  have f: "f = map (\<lambda>x. fmul (fneg (fsub x (Fin 1))) (Fin 5)) a"
    and m: "m = map (\<lambda>x. fmul (fneg (fsub x (Fin (1 / 2)))) (Fin 5)) a"
    and s: "s = map (\<lambda>x. fmul (fneg x) (Fin 5)) a"
    using assms(2-4) by (simp_all add: arithmetic_policies_return)
  have len: "length (sub_arrays f m) = length a" "length (sub_arrays m s) = length a"
    unfolding f m s sub_arrays_map by simp_all
  have entries: "\<exists>d1 d2. sub_arrays f m ! k = Fin d1 \<and> sub_arrays m s ! k = Fin d2
          \<and> \<bar>d1 - 5 / 2\<bar> \<le> 1 / 2 ^ 49 \<and> \<bar>d2 - 5 / 2\<bar> \<le> 1 / 2 ^ 49
          \<and> \<bar>d1 - d2\<bar> \<le> 1 / 2 ^ 48" if k: "k < length a" for k
  proof -
    from k assms(1) have "fle (Fin 0) (a ! k)" "fle (a ! k) (Fin 1)"
      by simp_all
    then obtain r where r: "a ! k = Fin r" "0 \<le> r" "r \<le> 1"
      using unit_interval by blast
    from spacing_entry_bound [OF r(2,3)] show ?thesis
      unfolding f m s sub_arrays_map using k by (simp add: r(1))
  qed
  from entries have all: "\<forall>k<length a. \<exists>d1 d2. sub_arrays f m ! k = Fin d1
          \<and> sub_arrays m s ! k = Fin d2
          \<and> \<bar>d1 - 5 / 2\<bar> \<le> 1 / 2 ^ 49 \<and> \<bar>d2 - 5 / 2\<bar> \<le> 1 / 2 ^ 49
          \<and> \<bar>d1 - d2\<bar> \<le> 1 / 2 ^ 48"
    by blast
  from len all show ?thesis
    by (simp only: arithmetic_policies_return example_outputs example_differences simp_thms)
qed

theorem spacing_law_up_to_rounding_witness:
  "fle (Fin 0) (Fin (1 / 2)) \<and> fle (Fin (1 / 2)) (Fin 1)
   \<and> length (sub_arrays [Fin 5, Fin (5 / 2), Fin 0] [Fin (5 / 2), Fin 0, Fin (- (5 / 2))]) = 3
   \<and> (\<exists>d1 d2. sub_arrays [Fin 5, Fin (5 / 2), Fin 0] [Fin (5 / 2), Fin 0, Fin (- (5 / 2))] ! 1
                 = Fin d1
        \<and> sub_arrays [Fin (5 / 2), Fin 0, Fin (- (5 / 2))] [Fin 0, Fin (- (5 / 2)), Fin (- 5)] ! 1
                 = Fin d2
        \<and> \<bar>d1 - 5 / 2\<bar> \<le> 1 / 2 ^ 49 \<and> \<bar>d2 - 5 / 2\<bar> \<le> 1 / 2 ^ 49 \<and> \<bar>d1 - d2\<bar> \<le> 1 / 2 ^ 48)"
proof -
  let ?a = "[Fin 0, Fin (1 / 2), Fin 1]"
  have h: "\<forall>x \<in> set ?a. fle (Fin 0) x \<and> fle x (Fin 1)"
    by simp
  have hf: "fine_policy \<lparr>nb_actors = 3\<rparr> ?a [] [] [] [] [] [] [] 15 10
              = Inr [Fin 5, Fin (5 / 2), Fin 0]"
    and hm: "mixed_policy \<lparr>nb_actors = 3\<rparr> ?a [] [] [] [] [] [] [] 15 10
              = Inr [Fin (5 / 2), Fin 0, Fin (- (5 / 2))]"
    and hs: "subvention_policy \<lparr>nb_actors = 3\<rparr> ?a [] [] [] [] [] [] [] 15 10
              = Inr [Fin 0, Fin (- (5 / 2)), Fin (- 5)]"
    by (simp_all only: arithmetic_policies_return example_outputs)
  note T = spacing_law_up_to_rounding [OF h hf hm hs]
  have k: "1 < length ?a"
    by simp
  have "length (sub_arrays [Fin 5, Fin (5 / 2), Fin 0] [Fin (5 / 2), Fin 0, Fin (- (5 / 2))])
          = length ?a"
    by (rule T [THEN conjunct1])
  then have l: "length (sub_arrays [Fin 5, Fin (5 / 2), Fin 0]
      [Fin (5 / 2), Fin 0, Fin (- (5 / 2))]) = 3"
    by simp
  note e = T [THEN conjunct2, THEN conjunct2, THEN conjunct1, rule_format, OF k]
  have b: "fle (Fin 0) (Fin (1 / 2)) \<and> fle (Fin (1 / 2)) (Fin 1)"
    by simp
  from b l e show ?thesis
    by (intro conjI) simp_all
qed

section \<open>No call mutates its arguments\<close>

lemma preserved_refl: "preserved h h"
  by (simp add: preserved_def)

lemma preserved_nth:
  assumes "preserved h h'"
  shows "a < length (floats h) \<Longrightarrow> floats h' ! a = floats h ! a"
    and "b < length (bools h) \<Longrightarrow> bools h' ! b = bools h ! b"
    and "c < length (matrices h) \<Longrightarrow> matrices h' ! c = matrices h ! c"
    and "d < length (bool_matrices h) \<Longrightarrow> bool_matrices h' ! d = bool_matrices h ! d"
proof -
  show "a < length (floats h) \<Longrightarrow> floats h' ! a = floats h ! a"
    using assms by (metis nth_take preserved_def)
  show "b < length (bools h) \<Longrightarrow> bools h' ! b = bools h ! b"
    using assms by (metis nth_take preserved_def)
  show "c < length (matrices h) \<Longrightarrow> matrices h' ! c = matrices h ! c"
    using assms by (metis nth_take preserved_def)
  show "d < length (bool_matrices h) \<Longrightarrow> bool_matrices h' ! d = bool_matrices h ! d"
    using assms by (metis nth_take preserved_def)
qed

lemma mixed_policy_h_eq:
  "mixed_policy_h self a pri inco pump avgp crisis flows quota doe dcr h =
     Inr (length (floats h) + 3,
       h\<lparr>floats := floats h @
          [astype_float (floats h ! a),
           sub_scalar (astype_float (floats h ! a)) (Fin (1 / 2)),
           neg (sub_scalar (astype_float (floats h ! a)) (Fin (1 / 2))),
           mul_scalar (neg (sub_scalar (astype_float (floats h ! a)) (Fin (1 / 2)))) (Fin 5)]\<rparr>)"
  by (simp add: mixed_policy_h_def astype_float_h_def sub_scalar_h_def neg_h_def
      mul_scalar_h_def new_floats_def nth_append)

lemma fine_policy_h_eq:
  "fine_policy_h self a pri inco pump avgp crisis flows quota doe dcr h =
     Inr (length (floats h) + 3,
       h\<lparr>floats := floats h @
          [astype_float (floats h ! a),
           sub_scalar (astype_float (floats h ! a)) (Fin 1),
           neg (sub_scalar (astype_float (floats h ! a)) (Fin 1)),
           mul_scalar (neg (sub_scalar (astype_float (floats h ! a)) (Fin 1))) (Fin 5)]\<rparr>)"
  by (simp add: fine_policy_h_def astype_float_h_def sub_scalar_h_def neg_h_def
      mul_scalar_h_def new_floats_def nth_append)

lemma subvention_policy_h_eq:
  "subvention_policy_h self a pri inco pump avgp crisis flows quota doe dcr h =
     Inr (length (floats h) + 2,
       h\<lparr>floats := floats h @
          [astype_float (floats h ! a),
           neg (astype_float (floats h ! a)),
           mul_scalar (neg (astype_float (floats h ! a))) (Fin 5)]\<rparr>)"
  by (simp add: subvention_policy_h_def astype_float_h_def neg_h_def
      mul_scalar_h_def new_floats_def nth_append)

lemma pareto_step_eq:
  assumes "e < length (bools h)"
  shows "pareto_step costs e i h =
     h\<lparr>bools := (bools h)[e := (bools h ! e)
            [i := \<not> np_any (dominators (matrices h ! costs) (matrices h ! costs ! i))]]
          @ [np_all_axis1 (le_rows (matrices h ! costs) (matrices h ! costs ! i)),
             np_any_axis1 (lt_rows (matrices h ! costs) (matrices h ! costs ! i)),
             dominators (matrices h ! costs) (matrices h ! costs ! i)],
       bool_matrices := bool_matrices h
          @ [le_rows (matrices h ! costs) (matrices h ! costs ! i),
             lt_rows (matrices h ! costs) (matrices h ! costs ! i)]\<rparr>"
  using assms
  by (simp add: pareto_step_def le_rows_h_def lt_rows_h_def np_all_axis1_h_def
      np_any_axis1_h_def np_and_h_def setitem_bools_def new_bools_def new_bool_matrix_def
      row_view_def nth_append dominators_def list_update_append)


lemma take_eq_length: "take (length ys) xs = ys \<Longrightarrow> length ys \<le> length xs"
  by (drule arg_cong [where f = length]) simp

lemma pareto_loop_invariant:
  fixes h :: heap and costs :: ref
  defines "rows \<equiv> matrices h ! costs"
  defines "e \<equiv> length (bools h)"
  defines "h0 \<equiv> h\<lparr>bools := bools h @ [replicate (length rows) True]\<rparr>"
  assumes "k \<le> length rows"
  shows "floats (fold (pareto_step costs e) [0..<k] h0) = floats h
    \<and> matrices (fold (pareto_step costs e) [0..<k] h0) = matrices h
    \<and> take (length (bools h)) (bools (fold (pareto_step costs e) [0..<k] h0)) = bools h
    \<and> take (length (bool_matrices h)) (bool_matrices (fold (pareto_step costs e) [0..<k] h0))
        = bool_matrices h
    \<and> e < length (bools (fold (pareto_step costs e) [0..<k] h0))
    \<and> bools (fold (pareto_step costs e) [0..<k] h0) ! e
        = map (\<lambda>c. \<not> np_any (dominators rows c)) (take k rows)
          @ replicate (length rows - k) True"
  using assms(4)
proof (induction k)
  case 0
  show ?case
    by (simp add: h0_def e_def)
next
  case (Suc k)
  let ?hk = "fold (pareto_step costs e) [0..<k] h0"
  let ?f = "\<lambda>c. \<not> np_any (dominators rows c)"
  from Suc.prems have k: "k < length rows"
    by simp
  with Suc.IH have fl: "floats ?hk = floats h" and ma: "matrices ?hk = matrices h"
    and bo: "take (length (bools h)) (bools ?hk) = bools h"
    and bm: "take (length (bool_matrices h)) (bool_matrices ?hk) = bool_matrices h"
    and el: "e < length (bools ?hk)"
    and ev: "bools ?hk ! e = map ?f (take k rows) @ replicate (length rows - k) True"
    by simp_all
  have step: "fold (pareto_step costs e) [0..<Suc k] h0 = pareto_step costs e k ?hk"
    by simp
  have len_b: "length (bools h) \<le> length (bools ?hk)"
    using el by (simp add: e_def)
  have len_m: "length (bool_matrices h) \<le> length (bool_matrices ?hk)"
    using bm by (rule take_eq_length)
  have upd: "(map ?f (take k rows) @ replicate (length rows - k) True)[k := ?f (rows ! k)]
      = map ?f (take (Suc k) rows) @ replicate (length rows - Suc k) True"
  proof -
    have "length rows - k = Suc (length rows - Suc k)"
      using k by simp
    then show ?thesis
      using k by (simp add: take_Suc_conv_app_nth list_update_append)
  qed
  show ?case
    unfolding step pareto_step_eq [OF el]
    using fl ma bo bm el ev len_b len_m upd
    by (simp add: nth_append e_def rows_def)
qed


lemma preserved_append:
  "preserved h (h\<lparr>floats := floats h @ xs\<rparr>)"
  by (simp add: preserved_def)

lemma is_pareto_efficient_h_result:
  "\<exists>h'. is_pareto_efficient_h costs h = (length (bools h), h') \<and> preserved h h'
     \<and> length (bools h) < length (bools h')
     \<and> bools h' ! length (bools h) = is_pareto_efficient (matrices h ! costs)"
proof -
  let ?rows = "matrices h ! costs"
  let ?h' = "fold (pareto_step costs (length (bools h))) [0..<length ?rows]
      (h\<lparr>bools := bools h @ [replicate (length ?rows) True]\<rparr>)"
  note I = pareto_loop_invariant [of "length ?rows" h costs, OF order_refl]
  have "is_pareto_efficient_h costs h = (length (bools h), ?h')"
    by (simp add: is_pareto_efficient_h_def new_bools_def np_ones_bool_def Let_def)
  moreover have "preserved h ?h'"
    using I by (simp add: preserved_def)
  moreover have "length (bools h) < length (bools ?h')"
    using I by simp
  moreover have "bools ?h' ! length (bools h) = is_pareto_efficient ?rows"
    using I by (simp add: is_pareto_efficient_map)
  ultimately show ?thesis
    by blast
qed

text \<open>
  Claim C10.  No call of \<open>is_pareto_efficient\<close> or of a policy mutates an array argument.
  On the store, every call that returns yields a store in which every array of the
  initial store (the cost matrix and all per-actor vectors among them) is preserved, and
  a reference to an array that did not exist before the call; this new array holds the
  value that the function computes on the contents of its arguments.  The only call that
  does not return is \<open>no_policy\<close> with a negative \<^verbatim>\<open>nb_actors\<close>, which raises before it
  allocates.
\<close>

theorem calls_preserve_arguments:
  "(\<exists>r h'. mixed_policy_h self a pri inco pump avgp crisis flows quota doe dcr h = Inr (r, h')
        \<and> preserved h h' \<and> length (floats h) \<le> r \<and> r < length (floats h')
        \<and> mixed_policy self (floats h ! a) (floats h ! pri) (floats h ! inco) (floats h ! pump)
             (floats h ! avgp) (bools h ! crisis) (floats h ! flows) (floats h ! quota) doe dcr
            = Inr (floats h' ! r))
   \<and> (\<exists>r h'. fine_policy_h self a pri inco pump avgp crisis flows quota doe dcr h = Inr (r, h')
        \<and> preserved h h' \<and> length (floats h) \<le> r \<and> r < length (floats h')
        \<and> fine_policy self (floats h ! a) (floats h ! pri) (floats h ! inco) (floats h ! pump)
             (floats h ! avgp) (bools h ! crisis) (floats h ! flows) (floats h ! quota) doe dcr
            = Inr (floats h' ! r))
   \<and> (\<exists>r h'. subvention_policy_h self a pri inco pump avgp crisis flows quota doe dcr h
            = Inr (r, h')
        \<and> preserved h h' \<and> length (floats h) \<le> r \<and> r < length (floats h')
        \<and> subvention_policy self (floats h ! a) (floats h ! pri) (floats h ! inco)
             (floats h ! pump) (floats h ! avgp) (bools h ! crisis) (floats h ! flows)
             (floats h ! quota) doe dcr
            = Inr (floats h' ! r))
   \<and> (0 \<le> nb_actors self \<longrightarrow>
        (\<exists>r h'. no_policy_h self a pri inco pump avgp crisis flows quota doe dcr h = Inr (r, h')
          \<and> preserved h h' \<and> length (floats h) \<le> r \<and> r < length (floats h')
          \<and> no_policy self (floats h ! a) (floats h ! pri) (floats h ! inco) (floats h ! pump)
               (floats h ! avgp) (bools h ! crisis) (floats h ! flows) (floats h ! quota) doe dcr
              = Inr (floats h' ! r)))
   \<and> (nb_actors self < 0 \<longrightarrow>
        no_policy_h self a pri inco pump avgp crisis flows quota doe dcr h = Inl ValueError)
   \<and> (\<exists>r h'. is_pareto_efficient_h costs h = (r, h')
        \<and> preserved h h' \<and> length (bools h) \<le> r \<and> r < length (bools h')
        \<and> bools h' ! r = is_pareto_efficient (matrices h ! costs))
   \<and> (\<forall>h'. preserved h h' \<longrightarrow>
         (\<forall>x<length (floats h). floats h' ! x = floats h ! x)
       \<and> (\<forall>x<length (bools h). bools h' ! x = bools h ! x)
       \<and> (\<forall>x<length (matrices h). matrices h' ! x = matrices h ! x)
       \<and> (\<forall>x<length (bool_matrices h). bool_matrices h' ! x = bool_matrices h ! x))"
proof (intro conjI)
  show "\<exists>r h'. mixed_policy_h self a pri inco pump avgp crisis flows quota doe dcr h = Inr (r, h')
        \<and> preserved h h' \<and> length (floats h) \<le> r \<and> r < length (floats h')
        \<and> mixed_policy self (floats h ! a) (floats h ! pri) (floats h ! inco) (floats h ! pump)
             (floats h ! avgp) (bools h ! crisis) (floats h ! flows) (floats h ! quota) doe dcr
            = Inr (floats h' ! r)"
    unfolding mixed_policy_h_eq
    by (simp add: preserved_append mixed_policy_def nth_append)
  show "\<exists>r h'. fine_policy_h self a pri inco pump avgp crisis flows quota doe dcr h = Inr (r, h')
        \<and> preserved h h' \<and> length (floats h) \<le> r \<and> r < length (floats h')
        \<and> fine_policy self (floats h ! a) (floats h ! pri) (floats h ! inco) (floats h ! pump)
             (floats h ! avgp) (bools h ! crisis) (floats h ! flows) (floats h ! quota) doe dcr
            = Inr (floats h' ! r)"
    unfolding fine_policy_h_eq
    by (simp add: preserved_append fine_policy_def nth_append)
  show "\<exists>r h'. subvention_policy_h self a pri inco pump avgp crisis flows quota doe dcr h
            = Inr (r, h')
        \<and> preserved h h' \<and> length (floats h) \<le> r \<and> r < length (floats h')
        \<and> subvention_policy self (floats h ! a) (floats h ! pri) (floats h ! inco)
             (floats h ! pump) (floats h ! avgp) (bools h ! crisis) (floats h ! flows)
             (floats h ! quota) doe dcr
            = Inr (floats h' ! r)"
    unfolding subvention_policy_h_eq
    by (simp add: preserved_append subvention_policy_def nth_append)
  show "0 \<le> nb_actors self \<longrightarrow>
        (\<exists>r h'. no_policy_h self a pri inco pump avgp crisis flows quota doe dcr h = Inr (r, h')
          \<and> preserved h h' \<and> length (floats h) \<le> r \<and> r < length (floats h')
          \<and> no_policy self (floats h ! a) (floats h ! pri) (floats h ! inco) (floats h ! pump)
               (floats h ! avgp) (bools h ! crisis) (floats h ! flows) (floats h ! quota) doe dcr
              = Inr (floats h' ! r))"
    by (simp add: no_policy_h_def no_policy_def np_zeros_def new_floats_def preserved_append)
  show "nb_actors self < 0 \<longrightarrow>
        no_policy_h self a pri inco pump avgp crisis flows quota doe dcr h = Inl ValueError"
    by (simp add: no_policy_h_def np_zeros_def)
  show "\<exists>r h'. is_pareto_efficient_h costs h = (r, h')
        \<and> preserved h h' \<and> length (bools h) \<le> r \<and> r < length (bools h')
        \<and> bools h' ! r = is_pareto_efficient (matrices h ! costs)"
    using is_pareto_efficient_h_result [of costs h] by auto
  show "\<forall>h'. preserved h h' \<longrightarrow>
         (\<forall>x<length (floats h). floats h' ! x = floats h ! x)
       \<and> (\<forall>x<length (bools h). bools h' ! x = bools h ! x)
       \<and> (\<forall>x<length (matrices h). matrices h' ! x = matrices h ! x)
       \<and> (\<forall>x<length (bool_matrices h). bool_matrices h' ! x = bool_matrices h ! x)"
    using preserved_nth by blast
qed


theorem calls_preserve_arguments_witness:
  "0 \<le> nb_actors \<lparr>nb_actors = 2\<rparr>
   \<and> (\<exists>r h'. no_policy_h \<lparr>nb_actors = 2\<rparr> 0 0 0 0 0 0 0 0 15 10
          \<lparr>floats = [[Fin 0, Fin 1]], bools = [],
            matrices = [[[Fin 1, Fin 1], [Fin 2, Fin 2]]], bool_matrices = []\<rparr> = Inr (r, h')
        \<and> floats h' ! 0 = [Fin 0, Fin 1] \<and> 1 \<le> r)
   \<and> (\<exists>r h'. is_pareto_efficient_h 0
          \<lparr>floats = [[Fin 0, Fin 1]], bools = [],
            matrices = [[[Fin 1, Fin 1], [Fin 2, Fin 2]]], bool_matrices = []\<rparr> = (r, h')
        \<and> matrices h' ! 0 = [[Fin 1, Fin 1], [Fin 2, Fin 2]]
        \<and> bools h' ! r = [True, False])"
proof -
  let ?H = "\<lparr>floats = [[Fin 0, Fin 1]], bools = [],
            matrices = [[[Fin 1, Fin 1], [Fin 2, Fin 2]]], bool_matrices = []\<rparr>"
  note T = calls_preserve_arguments [of "\<lparr>nb_actors = 2\<rparr>" 0 0 0 0 0 0 0 0 15 10 ?H 0]
  note T4 = T [THEN conjunct2, THEN conjunct2, THEN conjunct2, THEN conjunct1]
  note T6 = T [THEN conjunct2, THEN conjunct2, THEN conjunct2, THEN conjunct2, THEN conjunct2,
      THEN conjunct1]
  note T7 = T [THEN conjunct2, THEN conjunct2, THEN conjunct2, THEN conjunct2, THEN conjunct2,
      THEN conjunct2]
  have nb: "0 \<le> nb_actors \<lparr>nb_actors = 2\<rparr>"
    by simp
  have frame: "floats h' ! 0 = [Fin 0, Fin 1] \<and> matrices h' ! 0 = [[Fin 1, Fin 1], [Fin 2, Fin 2]]"
    if "preserved ?H h'" for h'
  proof -
    note P = T7 [rule_format, OF that]
    have "floats h' ! 0 = floats ?H ! 0"
      by (rule P [THEN conjunct1, rule_format]) simp
    moreover have "matrices h' ! 0 = matrices ?H ! 0"
      by (rule P [THEN conjunct2, THEN conjunct2, THEN conjunct1, rule_format]) simp
    ultimately show ?thesis
      by simp
  qed
  from T4 [rule_format, OF nb] obtain r h' where
    "no_policy_h \<lparr>nb_actors = 2\<rparr> 0 0 0 0 0 0 0 0 15 10 ?H = Inr (r, h')"
    "preserved ?H h'" "length (floats ?H) \<le> r"
    by blast
  then have 1: "\<exists>r h'. no_policy_h \<lparr>nb_actors = 2\<rparr> 0 0 0 0 0 0 0 0 15 10 ?H = Inr (r, h')
        \<and> floats h' ! 0 = [Fin 0, Fin 1] \<and> 1 \<le> r"
    using frame [of h'] by (intro exI [of _ r] exI [of _ h']) simp
  have e: "is_pareto_efficient [[Fin 1, Fin 1], [Fin 2, Fin 2]] = [True, False]"
    by code_simp
  from T6 obtain r' h'' where "is_pareto_efficient_h 0 ?H = (r', h'')" "preserved ?H h''"
    "bools h'' ! r' = is_pareto_efficient (matrices ?H ! 0)"
    by blast
  then have 2: "\<exists>r h'. is_pareto_efficient_h 0 ?H = (r, h')
        \<and> matrices h' ! 0 = [[Fin 1, Fin 1], [Fin 2, Fin 2]]
        \<and> bools h' ! r = [True, False]"
    using frame [of h''] e by (intro exI [of _ r'] exI [of _ h'']) simp
  from nb 1 2 show ?thesis
    by (intro conjI)
qed

section \<open>Saving a figure creates the directory first\<close>

lemma split_on_sep_append:
  "split_on_sep acc (xs @ sep # ys) = split_on_sep acc xs @ split_on_sep [] ys"
  by (induction xs arbitrary: acc) simp_all

lemma names_of_append: "names_of (xs @ sep # ys) = names_of xs @ names_of ys"
  by (simp add: names_of_def split_on_sep_append)

lemma split_on_sep_plain: "sep \<notin> set t \<Longrightarrow> split_on_sep acc t = [rev acc @ t]"
  by (induction t arbitrary: acc) auto

lemma names_of_plain: "sep \<notin> set t \<Longrightarrow> names_of t = (if t = [] then [] else [t])"
  by (simp add: names_of_def split_on_sep_plain)

lemma names_of_Nil: "names_of [] = []"
  by (simp add: names_of_def)

lemma names_of_snoc_sep: "names_of (xs @ [sep]) = names_of xs"
  using names_of_append [of xs "[]"] by (simp add: names_of_Nil)

lemma names_of_rstrip_rev: "names_of (rev (dropWhile (\<lambda>c. c = sep) l)) = names_of (rev l)"
  by (induction l) (simp_all add: names_of_snoc_sep)

lemma names_of_rstrip: "names_of (rstrip_sep x) = names_of x"
  using names_of_rstrip_rev [of "rev x"] by (simp add: rstrip_sep_def)

lemma split_raw:
  fixes p :: string
  defines "tw \<equiv> takeWhile (\<lambda>c. c \<noteq> sep) (rev p)"
  defines "h0 \<equiv> take (length p - length tw) p"
  shows "p = h0 @ rev tw" and "sep \<notin> set (rev tw)" and "h0 = [] \<or> last h0 = sep"
proof -
  have r: "rev p = tw @ dropWhile (\<lambda>c. c \<noteq> sep) (rev p)"
    by (simp add: tw_def)
  have "length (dropWhile (\<lambda>c. c \<noteq> sep) (rev p)) = length p - length tw"
    by (metis r add_diff_cancel_left' length_append length_rev)
  moreover have "p = rev (dropWhile (\<lambda>c. c \<noteq> sep) (rev p)) @ rev tw"
    by (metis r rev_append rev_rev_ident)
  ultimately have h0: "h0 = rev (dropWhile (\<lambda>c. c \<noteq> sep) (rev p))"
    unfolding h0_def by (metis append_eq_conv_conj length_rev)
  show "p = h0 @ rev tw"
    unfolding h0 by (metis r rev_append rev_rev_ident)
  show "sep \<notin> set (rev tw)"
    unfolding tw_def using set_takeWhileD by fastforce
  show "h0 = [] \<or> last h0 = sep"
  proof (cases "dropWhile (\<lambda>c. c \<noteq> sep) (rev p)")
    case Nil
    then show ?thesis by (simp add: h0)
  next
    case (Cons c cs)
    then have "c = sep"
      using hd_dropWhile [of "\<lambda>c. c \<noteq> sep" "rev p"] by simp
    with Cons show ?thesis by (simp add: h0)
  qed
qed

lemma split_path_names:
  "names_of p = names_of (fst (split_path p)) @ names_of (snd (split_path p))"
  and split_path_tail: "sep \<notin> set (snd (split_path p))"
  and split_path_prefix: "prefix (fst (split_path p)) p"
proof -
  let ?tw = "takeWhile (\<lambda>c. c \<noteq> sep) (rev p)"
  let ?h0 = "take (length p - length ?tw) p"
  note R = split_raw [of p]
  have tl: "snd (split_path p) = rev ?tw"
    by (simp add: split_path_def Let_def)
  have hd: "names_of (fst (split_path p)) = names_of ?h0"
    by (simp add: split_path_def Let_def names_of_rstrip)
  show "sep \<notin> set (snd (split_path p))"
    unfolding tl by (rule R(2))
  have "names_of p = names_of ?h0 @ names_of (rev ?tw)"
  proof (cases "?h0 = []")
    case True
    with R(1) have "p = rev ?tw"
      by simp
    with True show ?thesis
      by (simp only: names_of_Nil append_Nil)
  next
    case False
    with R(3) obtain h' where h': "?h0 = h' @ [sep]"
      by (metis append_butlast_last_id)
    with R(1) have "p = h' @ sep # rev ?tw"
      by simp
    then have "names_of p = names_of h' @ names_of (rev ?tw)"
      by (metis names_of_append)
    then show ?thesis
      by (simp add: h' names_of_snoc_sep)
  qed
  then show "names_of p = names_of (fst (split_path p)) @ names_of (snd (split_path p))"
    by (simp add: hd tl)
  have "prefix (rstrip_sep ?h0) ?h0"
  proof -
    have "rev ?h0 = takeWhile (\<lambda>c. c = sep) (rev ?h0) @ dropWhile (\<lambda>c. c = sep) (rev ?h0)"
      by simp
    then have "?h0 = rstrip_sep ?h0 @ rev (takeWhile (\<lambda>c. c = sep) (rev ?h0))"
      unfolding rstrip_sep_def by (metis rev_append rev_rev_ident)
    then show ?thesis
      by (metis prefixI)
  qed
  moreover have "prefix ?h0 p"
    by (rule take_is_prefix)
  ultimately show "prefix (fst (split_path p)) p"
    by (auto simp add: split_path_def Let_def intro: prefix_order.trans)
qed

lemma names_of_all_sep: "list_all (\<lambda>c. c = sep) h \<Longrightarrow> names_of h = []"
  by (induction h rule: rev_induct) (simp_all add: names_of_Nil names_of_snoc_sep)

lemma split_path_tidy: "tidy (fst (split_path p))"
proof -
  let ?h0 = "take (length p - length (takeWhile (\<lambda>c. c \<noteq> sep) (rev p))) p"
  show ?thesis
  proof (cases "?h0 \<noteq> [] \<and> \<not> list_all (\<lambda>c. c = sep) ?h0")
    case True
    then have d: "dropWhile (\<lambda>c. c = sep) (rev ?h0) \<noteq> []"
      by (simp add: list_all_iff dropWhile_eq_Nil_conv)
    then have "hd (dropWhile (\<lambda>c. c = sep) (rev ?h0)) \<noteq> sep"
      using hd_dropWhile [of "\<lambda>c. c = sep" "rev ?h0"] by simp
    with d have "last (rstrip_sep ?h0) \<noteq> sep"
      by (simp add: rstrip_sep_def last_rev)
    with True show ?thesis
      by (simp add: tidy_def split_path_def Let_def)
  next
    case False
    then have "names_of ?h0 = []"
      by (auto simp add: names_of_Nil names_of_all_sep)
    with False show ?thesis
      by (auto simp add: tidy_def split_path_def Let_def)
  qed
qed

lemma split_last_facts:
  assumes "split_last name = (head, tail)"
  shows "names_of name = names_of head @ names_of tail" and "sep \<notin> set tail"
    and "prefix head name" and "tidy head"
proof -
  show "names_of name = names_of head @ names_of tail"
  proof (cases "snd (split_path name) = []")
    case True
    then have "names_of name = names_of (fst (split_path name))"
      using split_path_names [of name] by (simp add: names_of_Nil)
    also have "\<dots> = names_of head @ names_of tail"
      using assms True split_path_names [of "fst (split_path name)"]
      by (simp add: split_last_def split_beta)
    finally show ?thesis .
  next
    case False
    with assms show ?thesis
      using split_path_names [of name] by (auto simp add: split_last_def split_beta)
  qed
  show "sep \<notin> set tail"
    using assms split_path_tail [of name] split_path_tail [of "fst (split_path name)"]
    by (auto simp add: split_last_def split_beta split: if_splits)
  show "prefix head name"
    using assms split_path_prefix [of name] split_path_prefix [of "fst (split_path name)"]
    by (auto simp add: split_last_def split_beta split: if_splits intro: prefix_order.trans)
  show "tidy head"
    using assms split_path_tidy [of name] split_path_tidy [of "fst (split_path name)"]
    by (auto simp add: split_last_def split_beta split: if_splits)
qed

lemma walk_append:
  "walk ns cur (xs @ ys) = (case walk ns cur xs of Inl e \<Rightarrow> Inl e | Inr k \<Rightarrow> walk ns k ys)"
  by (induction xs arbitrary: cur) (auto split: option.splits node.splits)

lemma walk_mono:
  "ns \<subseteq>\<^sub>m ns' \<Longrightarrow> walk ns cur xs = Inr k \<Longrightarrow> walk ns' cur xs = Inr k"
proof (induction xs arbitrary: cur)
  case Nil
  then show ?case by simp
next
  case (Cons c cs)
  from Cons.prems(2) have d: "ns cur = Some Dir" and w: "walk ns (step cur c) cs = Inr k"
    by (auto split: option.splits node.splits)
  from d Cons.prems(1) have "ns' cur = Some Dir"
    by (metis domI map_le_def)
  with Cons.IH [OF Cons.prems(1) w] show ?case
    by simp
qed

lemma walk_last:
  "walk ns cur (xs @ [c]) = Inr k \<Longrightarrow>
   \<exists>j. walk ns cur xs = Inr j \<and> ns j = Some Dir \<and> k = step j c"
  by (auto simp add: walk_append split: sum.splits option.splits node.splits)

lemma well_formed_closed: "well_formed fs \<Longrightarrow> closed (nodes fs)"
  by (simp add: well_formed_def closed_def)

lemma walk_new_parent:
  assumes "closed ns" and "ns [] \<noteq> None" and "ns cur \<noteq> None"
    and "walk ns cur xs = Inr k" and "ns k = None"
  shows "k \<noteq> [] \<and> ns (butlast k) = Some Dir"
proof (cases xs rule: rev_cases)
  case Nil
  with assms show ?thesis by simp
next
  case (snoc ys c)
  with assms(4) obtain j where j: "ns j = Some Dir" "k = step j c"
    using walk_last by blast
  show ?thesis
  proof (cases "c = ''.''")
    case True
    with j assms(5) show ?thesis by (simp add: step_def)
  next
    case False
    show ?thesis
    proof (cases "c = ''..''")
      case True
      with j have k: "k = butlast j"
        by (simp add: step_def)
      have "ns (butlast j) \<noteq> None"
      proof (cases "j = []")
        case True
        with assms(2) show ?thesis by simp
      next
        case False
        with assms(1) j(1) show ?thesis
          by (simp add: closed_def)
      qed
      with k assms(5) show ?thesis by simp
    next
      case False
      with \<open>c \<noteq> ''.''\<close> j show ?thesis
        by (simp add: step_def)
    qed
  qed
qed

lemma closed_prefix:
  "closed ns \<Longrightarrow> ns k \<noteq> None \<Longrightarrow> strict_prefix j k \<Longrightarrow> ns j = Some Dir"
proof (induction k rule: rev_induct)
  case Nil
  then show ?case by simp
next
  case (snoc x ks)
  from snoc.prems(1,2) have ks: "ns ks = Some Dir"
    by (auto simp add: closed_def)
  from snoc.prems(3) have "prefix j ks"
    by (auto simp add: strict_prefix_def prefix_snoc)
  then show ?case
    using ks snoc.IH [OF snoc.prems(1)] by (cases "j = ks") (auto simp add: strict_prefix_def)
qed

lemma walk_prefix:
  "''..'' \<notin> set xs \<Longrightarrow> walk ns cur xs = Inr k \<Longrightarrow> prefix cur k"
proof (induction xs arbitrary: cur)
  case Nil
  then show ?case by simp
next
  case (Cons c cs)
  from Cons.prems have w: "walk ns (step cur c) cs = Inr k" and c: "c \<noteq> ''..''"
    by (auto split: option.splits node.splits)
  from c have "prefix cur (step cur c)"
    by (simp add: step_def)
  moreover from Cons.IH [OF _ w] Cons.prems(1) have "prefix (step cur c) k"
    by simp
  ultimately show ?case
    by (rule prefix_order.trans)
qed

lemma walk_back:
  assumes "''..'' \<notin> set xs" and "walk ns1 cur xs = Inr k" and "ns1 k = Some File"
    and "\<And>j. strict_prefix j k \<Longrightarrow> ns j = Some Dir"
  shows "walk ns cur xs = Inr k"
  using assms(1,2)
proof (induction xs arbitrary: cur)
  case Nil
  then show ?case by simp
next
  case (Cons c cs)
  from Cons.prems have d: "ns1 cur = Some Dir" and w: "walk ns1 (step cur c) cs = Inr k"
    and cs: "''..'' \<notin> set cs"
    by (auto split: option.splits node.splits)
  from walk_prefix [OF Cons.prems] have "prefix cur k" .
  moreover from d assms(3) have "cur \<noteq> k"
    by auto
  ultimately have "ns cur = Some Dir"
    using assms(4) by (simp add: strict_prefix_def)
  with Cons.IH [OF cs w] show ?case
    by simp
qed

lemma grows_refl: "grows fs fs"
  by (simp add: grows_def)

lemma grows_trans: "grows a b \<Longrightarrow> grows b c \<Longrightarrow> grows a c"
  by (auto simp add: grows_def intro: map_le_trans)

lemma mkdir_error_state: "mkdir p fs = Inl (e, fs') \<Longrightarrow> fs' = fs"
  by (auto simp add: mkdir_def split: if_splits sum.splits option.splits)

lemma walk_errors: "walk ns cur xs = Inl e \<Longrightarrow> e \<noteq> FileExistsError"
  by (induction xs arbitrary: cur) (auto split: option.splits node.splits)

lemma mkdir_exists:
  "mkdir p fs = Inl (FileExistsError, fs') \<Longrightarrow>
   p \<noteq> [] \<and> (\<exists>k. resolve fs p = Inr k \<and> nodes fs k \<noteq> None)"
  using walk_errors [of "nodes fs" "start fs p" "names_of p" FileExistsError]
  by (auto simp add: mkdir_def resolve_def split: if_splits sum.splits option.splits)

lemma mkdir_ok:
  assumes "mkdir p fs = Inr fs'"
  shows "is_dir fs' p" and "grows fs fs'" and "well_formed fs \<Longrightarrow> well_formed fs'"
proof -
  from assms obtain k where p: "p \<noteq> []" and r: "resolve fs p = Inr k"
    and new: "nodes fs k = None" and fs': "fs' = fs\<lparr>nodes := (nodes fs)(k \<mapsto> Dir)\<rparr>"
    by (auto simp add: mkdir_def split: if_splits sum.splits option.splits)
  have le: "nodes fs \<subseteq>\<^sub>m nodes fs'"
    using new by (auto simp add: fs' map_le_def)
  show "grows fs fs'"
    using le new by (auto simp add: grows_def fs')
  have "start fs' p = start fs p"
    by (simp add: start_def fs')
  then have "resolve fs' p = Inr k"
    using r walk_mono [OF le] by (simp add: resolve_def)
  then show "is_dir fs' p"
    using p by (simp add: is_dir_def fs')
  show "well_formed fs'" if wf: "well_formed fs"
  proof -
    have "nodes fs (start fs p) \<noteq> None"
      using wf by (simp add: well_formed_def start_def)
    with r new wf have par: "k \<noteq> [] \<and> nodes fs (butlast k) = Some Dir"
      using walk_new_parent [of "nodes fs" "start fs p" "names_of p" k]
      by (simp add: resolve_def well_formed_closed well_formed_def)
    have "nodes fs' (butlast j) = Some Dir" if j: "nodes fs' j \<noteq> None" "j \<noteq> []" for j
    proof (cases "j = k")
      case True
      with par le show ?thesis
        by (metis domI map_le_def)
    next
      case False
      with j have "nodes fs j \<noteq> None"
        by (simp add: fs')
      with wf j(2) have "nodes fs (butlast j) = Some Dir"
        by (simp add: well_formed_def)
      with le show ?thesis
        by (metis domI map_le_def)
    qed
    moreover have "nodes fs' [] = Some Dir" "nodes fs' (cwd fs') = Some Dir"
      using wf new by (auto simp add: well_formed_def fs')
    ultimately show ?thesis
      by (simp add: well_formed_def)
  qed
qed

lemma resolve_split:
  assumes "split_last name = (head, tail)" and "head \<noteq> []" and "tail \<noteq> []"
  shows "name \<noteq> []"
    and "resolve fs name =
      (case resolve fs head of Inl e \<Rightarrow> Inl e | Inr k \<Rightarrow> walk (nodes fs) k [tail])"
proof -
  note F = split_last_facts [OF assms(1)]
  from F(3) assms(2) show n: "name \<noteq> []"
    by auto
  from F(3) assms(2) have "hd head = hd name"
    by (auto simp add: prefix_def)
  moreover from F(1,2) assms(3) have "names_of name = names_of head @ [tail]"
    by (simp add: names_of_plain)
  ultimately show "resolve fs name =
      (case resolve fs head of Inl e \<Rightarrow> Inl e | Inr k \<Rightarrow> walk (nodes fs) k [tail])"
    using n assms(2) by (simp add: resolve_def start_def walk_append)
qed

lemma final_step:
  assumes wf: "well_formed fs" and wfx: "well_formed fsx" and g: "grows fs fsx"
    and plain: "''..'' \<notin> set (names_of name)"
  shows "case mkdir name fsx of
      Inr fs' \<Rightarrow> well_formed fs' \<and> grows fs fs' \<and> is_dir fs' name
    | Inl (e, fs') \<Rightarrow> well_formed fs' \<and> grows fs fs'
        \<and> (e = FileExistsError \<longrightarrow> \<not> path_exists fs name \<longrightarrow> tidy name \<longrightarrow> is_dir fs' name)"
proof (cases "mkdir name fsx")
  case (Inr fs')
  with mkdir_ok [OF Inr] wfx g show ?thesis
    by (auto intro: grows_trans)
next
  case (Inl a)
  obtain e fs' where a: "a = (e, fs')"
    by (cases a)
  with Inl have fs': "fs' = fsx"
    using mkdir_error_state by blast
  have "is_dir fsx name"
    if e: "e = FileExistsError" and ne: "\<not> path_exists fs name" and t: "tidy name"
  proof -
    from Inl a e obtain k where n: "name \<noteq> []" and r: "resolve fsx name = Inr k"
      and k: "nodes fsx k \<noteq> None"
      using mkdir_exists by blast
    have "nodes fsx k \<noteq> Some File"
    proof
      assume f: "nodes fsx k = Some File"
      with g have fk: "nodes fs k = Some File"
        by (simp add: grows_def)
      have c: "start fsx name = start fs name"
        using g by (simp add: grows_def start_def)
      have "strict_prefix j k \<Longrightarrow> nodes fs j = Some Dir" for j
        using closed_prefix [OF well_formed_closed [OF wf], of k j] fk by simp
      with plain r f have r': "resolve fs name = Inr k"
        using walk_back [of "names_of name" "nodes fsx" "start fs name" k "nodes fs"]
        by (simp add: resolve_def c)
      show False
      proof (cases "names_of name = []")
        case True
        with r' have "k = [] \<or> k = cwd fs"
          by (auto simp add: resolve_def start_def split: if_splits)
        with wf fk show False
          by (auto simp add: well_formed_def)
      next
        case False
        with t have "last name \<noteq> sep"
          by (simp add: tidy_def)
        with n r' fk have "path_exists fs name"
          by (simp add: path_exists_def)
        with ne show False
          by simp
      qed
    qed
    with k have "nodes fsx k = Some Dir"
      by (cases "nodes fsx k") (auto intro: node.exhaust)
    with n r show ?thesis
      by (simp add: is_dir_def)
  qed
  with Inl a fs' wfx g show ?thesis
    by simp
qed

lemma makedirs_dir:
  "well_formed fs \<Longrightarrow> ''..'' \<notin> set (names_of name) \<Longrightarrow>
   (case makedirs name fs of
      Inr fs' \<Rightarrow> well_formed fs' \<and> grows fs fs' \<and> is_dir fs' name
    | Inl (e, fs') \<Rightarrow> well_formed fs' \<and> grows fs fs'
        \<and> (e = FileExistsError \<longrightarrow> \<not> path_exists fs name \<longrightarrow> tidy name \<longrightarrow> is_dir fs' name))"
proof (induction name fs rule: makedirs.induct)
  case (1 name fs)
  obtain head tail where st: "split_last name = (head, tail)"
    by (cases "split_last name")
  note wf = "1.prems"(1) and plain = "1.prems"(2)
  show ?case
  proof (cases "head \<noteq> [] \<and> tail \<noteq> [] \<and> \<not> path_exists fs head")
    case False
    then have "makedirs name fs = mkdir name fs"
      by (subst makedirs.simps) (auto simp add: st)
    then show ?thesis
      using final_step [OF wf wf grows_refl plain] by simp
  next
    case True
    note F = split_last_facts [OF st]
    from F(1) plain have plain_head: "''..'' \<notin> set (names_of head)"
      by simp
    note IH = "1.IH" [OF st [symmetric] refl True wf plain_head]
    have cont: "case (if tail = ''.'' then Inr fs1 else mkdir name fs1) of
        Inr fs' \<Rightarrow> well_formed fs' \<and> grows fs fs' \<and> is_dir fs' name
      | Inl (e, fs') \<Rightarrow> well_formed fs' \<and> grows fs fs'
          \<and> (e = FileExistsError \<longrightarrow> \<not> path_exists fs name \<longrightarrow> tidy name \<longrightarrow> is_dir fs' name)"
      if wf1: "well_formed fs1" and g1: "grows fs fs1" and d1: "is_dir fs1 head" for fs1
    proof (cases "tail = ''.''")
      case False
      then show ?thesis
        using final_step [OF wf wf1 g1 plain] by simp
    next
      case dot: True
      from d1 obtain k where k: "resolve fs1 head = Inr k" "nodes fs1 k = Some Dir"
        by (auto simp add: is_dir_def split: sum.splits)
      from True have ht: "head \<noteq> []" "tail \<noteq> []"
        by simp_all
      have "resolve fs1 name = Inr k"
        using resolve_split(2) [OF st ht, of fs1] k dot by (simp add: step_def)
      with k(2) resolve_split(1) [OF st ht] have "is_dir fs1 name"
        by (simp add: is_dir_def)
      with dot wf1 g1 show ?thesis
        by simp
    qed
    show ?thesis
    proof (cases "makedirs head fs")
      case (Inr fs1)
      with IH have "well_formed fs1" "grows fs fs1" "is_dir fs1 head"
        by simp_all
      from cont [OF this] Inr True show ?thesis
        by (subst makedirs.simps) (simp add: st)
    next
      case (Inl a)
      obtain e fs1 where a: "a = (e, fs1)"
        by (cases a)
      from IH Inl a have wf1: "well_formed fs1" and g1: "grows fs fs1"
        and d: "e = FileExistsError \<Longrightarrow> is_dir fs1 head"
        using True F(4) by simp_all
      show ?thesis
      proof (cases "e = FileExistsError")
        case True
        from cont [OF wf1 g1 d [OF True]] Inl a True \<open>head \<noteq> [] \<and> tail \<noteq> [] \<and> \<not> path_exists fs head\<close>
        show ?thesis
          by (subst makedirs.simps) (simp add: st)
      next
        case False
        with Inl a wf1 g1 \<open>head \<noteq> [] \<and> tail \<noteq> [] \<and> \<not> path_exists fs head\<close> show ?thesis
          by (subst makedirs.simps) (simp add: st)
      qed
    qed
  qed
qed

lemma makedirs_grows:
  "(case makedirs name fs of Inl (e, fs') \<Rightarrow> grows fs fs' | Inr fs' \<Rightarrow> grows fs fs')"
proof (induction name fs rule: makedirs.induct)
  case (1 name fs)
  obtain head tail where st: "split_last name = (head, tail)"
    by (cases "split_last name")
  have mk: "(case mkdir name fsx of Inl (e, fs') \<Rightarrow> grows fs fs' | Inr fs' \<Rightarrow> grows fs fs')"
    if "grows fs fsx" for fsx
  proof (cases "mkdir name fsx")
    case (Inl a)
    then show ?thesis
      using that mkdir_error_state [of name fsx "fst a" "snd a"] by (simp add: split_beta)
  next
    case (Inr b)
    then show ?thesis
      using that mkdir_ok(2) [of name fsx b] by (auto intro: grows_trans)
  qed
  show ?case
  proof (cases "head \<noteq> [] \<and> tail \<noteq> [] \<and> \<not> path_exists fs head")
    case False
    then have "makedirs name fs = mkdir name fs"
      by (subst makedirs.simps) (auto simp add: st)
    then show ?thesis
      using mk [OF grows_refl] by simp
  next
    case True
    note IH = "1.IH" [OF st [symmetric] refl True]
    show ?thesis
    proof (cases "makedirs head fs")
      case (Inl a)
      with IH have le: "grows fs (snd a)"
        by (simp add: split_beta)
      show ?thesis
        using Inl True le mk [of "snd a"]
        by (subst makedirs.simps) (auto simp add: st split_beta)
    next
      case (Inr b)
      with IH have le: "grows fs b"
        by simp
      show ?thesis
        using Inr True le mk [of b]
        by (subst makedirs.simps) (auto simp add: st)
    qed
  qed
qed

lemma makedirs_last_step:
  assumes "makedirs name fs = Inr fs'" and "snd (split_last name) \<noteq> ''.''"
  shows "\<exists>fsx. mkdir name fsx = Inr fs'"
  using assms
  by (subst (asm) makedirs.simps)
    (auto simp add: Let_def split_beta split: if_splits sum.splits prod.splits)

lemma makedirs_empty: "makedirs [] fs = Inl (FileNotFoundError, fs)"
  by (simp add: makedirs.simps [of "[]"] split_last_def split_path_def mkdir_def)

lemma not_exists_empty: "\<not> path_exists fs []"
  by (simp add: path_exists_def)

lemma dirname_bare: "dirname ''figure.png'' = []"
  by code_simp

text \<open>
  A path without a directory part, such as \<^verbatim>\<open>figure.png\<close>: \<^verbatim>\<open>dirname\<close> gives the empty
  string, which does not exist, and \<^verbatim>\<open>os.makedirs\<close> of the empty string raises.  The
  figure is not saved, whatever the file system and the figure.
\<close>

lemma bare_filename_raises:
  "save_or_create plt ''figure.png'' fs = Inl (FileNotFoundError, fs)"
  by (simp add: save_or_create_def dirname_bare not_exists_empty makedirs_empty)

lemma path_examples:
  "split_path ''figure.png'' = ([], ''figure.png'')"
  "split_path ''out/plots/figure.png'' = (''out/plots'', ''figure.png'')"
  "split_path ''/figure.png'' = (''/'', ''figure.png'')"
  "split_path ''out/'' = (''out'', [])"
  "split_path ''a//b/c.png'' = (''a//b'', ''c.png'')"
  "split_path ''//x'' = (''//'', ''x'')"
  "names_of ''/out//plots/./x'' = [''out'', ''plots'', ''.'', ''x'']"
  "split_last ''out/plots/'' = (''out'', ''plots'')"
  by code_simp+

text \<open>
  Claim C9 says that \<open>save_or_create\<close> creates the directory and writes the figure
  without error for every figure and every path.  Where a regular file \<^verbatim>\<open>data\<close> is in
  the way of the directory \<^verbatim>\<open>data/plots\<close>, the call raises \<open>NotADirectoryError\<close> and
  writes nothing, with a figure whose \<^verbatim>\<open>savefig\<close> never fails.
\<close>

theorem save_or_create_counterexample:
  "save_or_create \<lparr>savefig = \<lambda>p fs. Inr (fs\<lparr>nodes := (nodes fs)(names_of p \<mapsto> File)\<rparr>)\<rparr>
       ''data/plots/figure.png'' \<lparr>nodes = [[] \<mapsto> Dir, [''data''] \<mapsto> File], cwd = []\<rparr>
     = Inl (NotADirectoryError, \<lparr>nodes = [[] \<mapsto> Dir, [''data''] \<mapsto> File], cwd = []\<rparr>)"
proof -
  have d: "dirname ''data/plots/figure.png'' = ''data/plots''"
    and s: "split_last ''data/plots'' = (''data'', ''plots'')"
    and k: "names_of ''data/plots'' = [''data'', ''plots'']" "names_of ''data'' = [''data'']"
    by code_simp+
  show ?thesis
    by (simp add: save_or_create_def d makedirs.simps [of "''data/plots''"] s k
        path_exists_def resolve_def start_def step_def mkdir_def sep_def)
qed

text \<open>
  With a name \<^verbatim>\<open>..\<close>: \<^verbatim>\<open>os.makedirs\<close> creates \<^verbatim>\<open>a\<close>, then finds that \<^verbatim>\<open>a/..\<close> exists,
  and raises.
\<close>

lemma parent_step_example:
  "save_or_create plt ''a/../figure.png'' \<lparr>nodes = [[] \<mapsto> Dir], cwd = []\<rparr>
     = Inl (FileExistsError, \<lparr>nodes = [[] \<mapsto> Dir, [''a''] \<mapsto> Dir], cwd = []\<rparr>)"
proof -
  have d: "dirname ''a/../figure.png'' = ''a/..''"
    and s: "split_last ''a/..'' = (''a'', ''..'')" "split_last ''a'' = ([], ''a'')"
    and k: "names_of ''a/..'' = [''a'', ''..'']" "names_of ''a'' = [''a'']"
    by code_simp+
  show ?thesis
    by (simp add: save_or_create_def d makedirs.simps [of "''a/..''"] makedirs.simps [of "''a''"]
        s k path_exists_def resolve_def start_def step_def mkdir_def sep_def)
qed

text \<open>
  Where the path has a name \<^verbatim>\<open>..\<close> and ends in the name \<^verbatim>\<open>.\<close>, \<^verbatim>\<open>os.makedirs\<close> can
  return although the path is no directory: it passes over the \<open>FileExistsError\<close> that
  the regular file \<^verbatim>\<open>f\<close> gives, and returns at once since the tail is \<^verbatim>\<open>.\<close>.
\<close>

lemma makedirs_dot_quirk:
  "makedirs ''a/../f/.'' \<lparr>nodes = [[] \<mapsto> Dir, [''f''] \<mapsto> File], cwd = []\<rparr>
     = Inr \<lparr>nodes = [[] \<mapsto> Dir, [''f''] \<mapsto> File, [''a''] \<mapsto> Dir], cwd = []\<rparr>"
  "\<not> is_dir \<lparr>nodes = [[] \<mapsto> Dir, [''f''] \<mapsto> File, [''a''] \<mapsto> Dir], cwd = []\<rparr> ''a/../f/.''"
proof -
  have s: "split_last ''a/../f/.'' = (''a/../f'', ''.'')" "split_last ''a/../f'' = (''a/..'', ''f'')"
      "split_last ''a/..'' = (''a'', ''..'')" "split_last ''a'' = ([], ''a'')"
    and k: "names_of ''a/../f/.'' = [''a'', ''..'', ''f'', ''.'']"
      "names_of ''a/../f'' = [''a'', ''..'', ''f'']"
      "names_of ''a/..'' = [''a'', ''..'']" "names_of ''a'' = [''a'']"
    by code_simp+
  show "makedirs ''a/../f/.'' \<lparr>nodes = [[] \<mapsto> Dir, [''f''] \<mapsto> File], cwd = []\<rparr>
     = Inr \<lparr>nodes = [[] \<mapsto> Dir, [''f''] \<mapsto> File, [''a''] \<mapsto> Dir], cwd = []\<rparr>"
    by (simp add: makedirs.simps [of "''a/../f/.''"] makedirs.simps [of "''a/../f''"]
        makedirs.simps [of "''a/..''"] makedirs.simps [of "''a''"]
        s k path_exists_def resolve_def start_def step_def mkdir_def sep_def)
  show "\<not> is_dir \<lparr>nodes = [[] \<mapsto> Dir, [''f''] \<mapsto> File, [''a''] \<mapsto> Dir], cwd = []\<rparr> ''a/../f/.''"
    by (simp add: is_dir_def resolve_def start_def step_def k sep_def)
qed

text \<open>
  When \<^verbatim>\<open>os.makedirs\<close> returns: on a path that does not exist and is unobstructed, in a
  file system that is a tree.  It then changes nothing outside the way to the target.
\<close>

lemma unobstructed_prefix:
  "unobstructed fs p \<Longrightarrow> prefix j (target fs p) \<Longrightarrow> nodes fs j \<noteq> Some File"
  by (simp add: unobstructed_def list_all_iff)

lemma walk_target:
  "''..'' \<notin> set xs \<Longrightarrow> walk ns cur xs = Inr k \<Longrightarrow> k = cur @ filter (\<lambda>c. c \<noteq> ''.'') xs"
proof (induction xs arbitrary: cur)
  case Nil
  then show ?case by simp
next
  case (Cons c cs)
  from Cons.prems have w: "walk ns (step cur c) cs = Inr k" and c: "c \<noteq> ''..''"
    and cs: "''..'' \<notin> set cs"
    by (auto split: option.splits node.splits)
  from Cons.IH [OF cs w] c show ?case
    by (simp add: step_def)
qed

lemma walk_forward:
  assumes "''..'' \<notin> set xs"
    and "\<And>i. i < length xs \<Longrightarrow> ns (cur @ filter (\<lambda>c. c \<noteq> ''.'') (take i xs)) = Some Dir"
  shows "walk ns cur xs = Inr (cur @ filter (\<lambda>c. c \<noteq> ''.'') xs)"
  using assms
proof (induction xs arbitrary: cur)
  case Nil
  then show ?case by simp
next
  case (Cons c cs)
  from Cons.prems(2) [of 0] have d: "ns cur = Some Dir"
    by simp
  from Cons.prems(1) have c: "c \<noteq> ''..''" and cs: "''..'' \<notin> set cs"
    by auto
  have "ns (step cur c @ filter (\<lambda>c. c \<noteq> ''.'') (take i cs)) = Some Dir"
    if "i < length cs" for i
    using Cons.prems(2) [of "Suc i"] that c by (simp add: step_def split: if_splits)
  from Cons.IH [OF cs this] d c show ?case
    by (simp add: step_def)
qed

lemma filter_take_prefix: "prefix (filter P (take i xs)) (filter P xs)"
  by (metis append_take_drop_id filter_append prefixI)

text \<open>What is at the target of a path that has no regular file in its way exists.\<close>

lemma target_exists:
  assumes wf: "well_formed fs" and u: "unobstructed fs p" and p: "p \<noteq> []"
    and t: "nodes fs (target fs p) \<noteq> None"
  shows "path_exists fs p"
proof -
  let ?T = "target fs p"
  from u have plain: "''..'' \<notin> set (names_of p)"
    by (simp add: unobstructed_def)
  from u t have T: "nodes fs ?T = Some Dir"
    using unobstructed_prefix [OF u, of ?T] by (cases "nodes fs ?T") (auto intro: node.exhaust)
  have "nodes fs (start fs p @ filter (\<lambda>c. c \<noteq> ''.'') (take i (names_of p))) = Some Dir" for i
  proof -
    let ?j = "start fs p @ filter (\<lambda>c. c \<noteq> ''.'') (take i (names_of p))"
    have "prefix ?j ?T"
      by (simp add: target_def filter_take_prefix)
    then show ?thesis
      using T closed_prefix [OF well_formed_closed [OF wf], of ?T ?j] t
      by (cases "?j = ?T") (auto simp add: strict_prefix_def)
  qed
  with plain have "resolve fs p = Inr ?T"
    unfolding resolve_def target_def by (intro walk_forward) simp_all
  with T p show ?thesis
    by (simp add: path_exists_def)
qed

lemma split_path_empty_tail: "snd (split_path p) = [] \<Longrightarrow> p = [] \<or> last p = sep"
  using split_raw [of p] by (auto simp add: split_path_def Let_def)

lemma split_last_empty_tail:
  assumes "split_last name = (head, [])"
  shows "names_of name = []"
proof -
  let ?h1 = "fst (split_path name)"
  from assms have t1: "snd (split_path name) = []" and t2: "snd (split_path ?h1) = []"
    by (auto simp add: split_last_def split_beta split: if_splits)
  from t1 have "names_of name = names_of ?h1"
    using split_path_names [of name] by (simp add: names_of_Nil)
  moreover have "names_of ?h1 = []"
    using split_path_tidy [of name] split_path_empty_tail [OF t2]
    by (auto simp add: tidy_def names_of_Nil)
  ultimately show ?thesis
    by simp
qed

lemma mkdir_new:
  assumes "p \<noteq> []" and "resolve fs p = Inr k" and "nodes fs k = None"
  shows "mkdir p fs = Inr (fs\<lparr>nodes := (nodes fs)(k \<mapsto> Dir)\<rparr>)"
  using assms by (simp add: mkdir_def)

lemma makedirs_succeeds:
  "well_formed fs \<Longrightarrow> unobstructed fs name \<Longrightarrow> name \<noteq> [] \<Longrightarrow> \<not> path_exists fs name \<Longrightarrow>
   \<exists>fs'. makedirs name fs = Inr fs'
     \<and> (\<forall>j. nodes fs' j \<noteq> nodes fs j \<longrightarrow> prefix j (target fs name))"
proof (induction name fs rule: makedirs.induct)
  case (1 name fs)
  note wf = "1.prems"(1) and u = "1.prems"(2) and ne = "1.prems"(3) and nx = "1.prems"(4)
  obtain head tail where st: "split_last name = (head, tail)"
    by (cases "split_last name")
  note F = split_last_facts [OF st]
  let ?T = "target fs name"
  from u have plain: "''..'' \<notin> set (names_of name)"
    by (simp add: unobstructed_def)
  have nT: "nodes fs ?T = None"
    using target_exists [OF wf u ne] nx by blast
  have start_ok: "nodes fs (start fs p) = Some Dir" for p
    using wf by (simp add: well_formed_def start_def)
  have names: "names_of name \<noteq> []"
  proof
    assume "names_of name = []"
    then have "?T = start fs name"
      by (simp add: target_def)
    with nT start_ok [of name] show False
      by simp
  qed
  have tail: "tail \<noteq> []"
    using split_last_empty_tail [of name head] st names by auto
  with F(1,2) have nm: "names_of name = names_of head @ [tail]"
    by (simp add: names_of_plain)
  with plain have t2: "tail \<noteq> ''..''" and plain_head: "''..'' \<notin> set (names_of head)"
    by auto
  have created: "\<exists>fs'. mkdir name fsx = Inr fs'
       \<and> (\<forall>j. nodes fs' j \<noteq> nodes fs j \<longrightarrow> prefix j ?T)"
    if r: "resolve fsx name = Inr ?T" and n: "nodes fsx ?T = None"
      and c: "\<forall>j. nodes fsx j \<noteq> nodes fs j \<longrightarrow> prefix j ?T" for fsx
    using mkdir_new [OF ne r n] c by auto
  show ?case
  proof (cases "head = []")
    case True
    with tail have mk: "makedirs name fs = mkdir name fs"
      by (subst makedirs.simps) (simp add: st)
    from True nm have n1: "names_of name = [tail]"
      by (simp add: names_of_Nil)
    have "tail \<noteq> ''.''"
    proof
      assume "tail = ''.''"
      with n1 have "?T = start fs name"
        by (simp add: target_def)
      with nT start_ok [of name] show False
        by simp
    qed
    with n1 t2 have "resolve fs name = Inr ?T"
      by (simp add: resolve_def target_def start_ok step_def)
    from created [OF this nT] mk show ?thesis
      by simp
  next
    case False
    from F(3) False have "hd head = hd name"
      by (auto simp add: prefix_def)
    with False ne have same: "start fsx head = start fsx name" for fsx
      by (simp add: start_def)
    let ?Th = "target fs head"
    have T: "?T = ?Th @ filter (\<lambda>c. c \<noteq> ''.'') [tail]"
      by (simp add: target_def nm same)
    have uh: "unobstructed fs head"
      unfolding unobstructed_def list_all_iff
    proof (intro conjI ballI)
      show "''..'' \<notin> set (names_of head)"
        by (rule plain_head)
      fix j
      assume "j \<in> set (prefixes ?Th)"
      then have "prefix j ?T"
        by (simp add: T in_set_prefixes prefix_prefix)
      then show "nodes fs j \<noteq> Some File"
        by (rule unobstructed_prefix [OF u])
    qed
    note R = resolve_split(2) [OF st False tail]
    have go: "\<exists>fs'. (if tail = ''.'' then Inr fs1 else mkdir name fs1) = Inr fs'
         \<and> (\<forall>j. nodes fs' j \<noteq> nodes fs j \<longrightarrow> prefix j ?T)"
      if d: "resolve fs1 head = Inr ?Th" "nodes fs1 ?Th = Some Dir"
        and c: "\<forall>j. nodes fs1 j \<noteq> nodes fs j \<longrightarrow> prefix j ?Th" for fs1
    proof (cases "tail = ''.''")
      case True
      with c T show ?thesis
        by simp
    next
      case dot: False
      with t2 have T': "?T = ?Th @ [tail]"
        by (simp add: T)
      from d dot t2 have r: "resolve fs1 name = Inr ?T"
        by (simp add: R [of fs1] T' step_def)
      have "\<not> prefix ?T ?Th"
        by (simp add: T' prefix_def)
      with c nT have n: "nodes fs1 ?T = None"
        by metis
      from c have "\<forall>j. nodes fs1 j \<noteq> nodes fs j \<longrightarrow> prefix j ?T"
        by (auto simp add: T' intro: prefix_order.trans)
      from created [OF r n this] dot show ?thesis
        by simp
    qed
    show ?thesis
    proof (cases "path_exists fs head")
      case True
      with False tail have mk: "makedirs name fs = mkdir name fs"
        by (subst makedirs.simps) (simp add: st)
      from True obtain kh where kh: "resolve fs head = Inr kh" "nodes fs kh \<noteq> None"
        by (auto simp add: path_exists_def split: sum.splits option.splits)
      from walk_target [OF plain_head] kh(1) have "kh = ?Th"
        by (simp add: resolve_def target_def)
      with kh have rh: "resolve fs head = Inr ?Th" and "nodes fs ?Th \<noteq> None"
        by simp_all
      with unobstructed_prefix [OF uh, of ?Th] have dh: "nodes fs ?Th = Some Dir"
        by (cases "nodes fs ?Th") (auto intro: node.exhaust)
      have "tail \<noteq> ''.''"
      proof
        assume "tail = ''.''"
        with T dh nT show False
          by simp
      qed
      with go [OF rh dh] mk show ?thesis
        by simp
    next
      case nh: False
      with False tail have rec: "head \<noteq> [] \<and> tail \<noteq> [] \<and> \<not> path_exists fs head"
        by simp
      from "1.IH" [OF st [symmetric] refl rec wf uh False nh]
      obtain fs1 where fs1: "makedirs head fs = Inr fs1"
        and c1: "\<forall>j. nodes fs1 j \<noteq> nodes fs j \<longrightarrow> prefix j ?Th"
        by blast
      from makedirs_dir [OF wf plain_head] fs1
      have g1: "grows fs fs1" and d1: "is_dir fs1 head"
        by simp_all
      from d1 obtain kh where kh: "resolve fs1 head = Inr kh" "nodes fs1 kh = Some Dir"
        by (auto simp add: is_dir_def split: sum.splits)
      from g1 have "start fs1 head = start fs head"
        by (simp add: grows_def start_def)
      with walk_target [OF plain_head] kh(1) have "kh = ?Th"
        by (simp add: resolve_def target_def)
      with kh have "resolve fs1 head = Inr ?Th" "nodes fs1 ?Th = Some Dir"
        by simp_all
      from go [OF this c1] fs1 rec show ?thesis
        by (subst makedirs.simps) (simp add: st)
    qed
  qed
qed

text \<open>
  Claim C9, as the code has it.  For every figure, every file system (a tree) and every
  path whose directory part \<^verbatim>\<open>dirname(save_path)\<close> is not empty and does not both hold a
  name \<^verbatim>\<open>..\<close> and end in the name \<^verbatim>\<open>.\<close>: when the directory part exists,
  \<open>save_or_create\<close> creates nothing and does what the figure's \<^verbatim>\<open>savefig\<close> does on the
  path; when it does not exist, \<^verbatim>\<open>os.makedirs\<close> is called on it, and either it raises,
  the error propagates and \<^verbatim>\<open>savefig\<close> is not called, or it returns a file system in
  which the directory part is a directory, in which everything that existed still exists
  as it was, and on which \<open>save_or_create\<close> does what \<^verbatim>\<open>savefig\<close> does on the path.
  And \<^verbatim>\<open>os.makedirs\<close> does return, so that the directory is created and \<^verbatim>\<open>savefig\<close>
  called, when the directory part has no name \<^verbatim>\<open>..\<close> and no regular file is in its way.
  The case of an empty directory part is left out: there the call raises
  (\<open>bare_filename_raises\<close>).
\<close>

theorem save_or_create_directory:
  assumes "well_formed fs" and "dirname save_path \<noteq> []"
    and "''..'' \<notin> set (names_of (dirname save_path))
         \<or> snd (split_last (dirname save_path)) \<noteq> ''.''"
  shows "(path_exists fs (dirname save_path) \<longrightarrow>
            save_or_create plt save_path fs = savefig plt save_path fs)
    \<and> (\<not> path_exists fs (dirname save_path) \<longrightarrow>
          (case makedirs (dirname save_path) fs of
             Inl e \<Rightarrow> save_or_create plt save_path fs = Inl e
           | Inr fs' \<Rightarrow> is_dir fs' (dirname save_path) \<and> grows fs fs'
               \<and> save_or_create plt save_path fs = savefig plt save_path fs'))
    \<and> (\<not> path_exists fs (dirname save_path) \<and> unobstructed fs (dirname save_path) \<longrightarrow>
          (\<exists>fs'. makedirs (dirname save_path) fs = Inr fs'
             \<and> is_dir fs' (dirname save_path) \<and> grows fs fs'
             \<and> save_or_create plt save_path fs = savefig plt save_path fs'))"
proof -
  let ?d = "dirname save_path"
  have created: "is_dir fs' ?d \<and> grows fs fs'
      \<and> save_or_create plt save_path fs = savefig plt save_path fs'"
    if n: "\<not> path_exists fs ?d" and mk: "makedirs ?d fs = Inr fs'" for fs'
  proof -
    have "is_dir fs' ?d"
    proof (cases "snd (split_last ?d) \<noteq> ''.''")
      case True
      from makedirs_last_step [OF mk True] show ?thesis
        using mkdir_ok(1) by blast
    next
      case False
      with assms(3) have "''..'' \<notin> set (names_of ?d)"
        by simp
      from makedirs_dir [OF assms(1) this] mk show ?thesis
        by simp
    qed
    moreover from makedirs_grows [where name = ?d and fs = fs] mk
    have "grows fs fs'"
      by simp
    ultimately show ?thesis
      using n mk by (simp add: save_or_create_def)
  qed
  have exists: "save_or_create plt save_path fs = savefig plt save_path fs"
    if "path_exists fs ?d"
    using that by (simp add: save_or_create_def)
  have raises: "case makedirs ?d fs of
          Inl e \<Rightarrow> save_or_create plt save_path fs = Inl e
        | Inr fs' \<Rightarrow> is_dir fs' ?d \<and> grows fs fs'
            \<and> save_or_create plt save_path fs = savefig plt save_path fs'"
    if n: "\<not> path_exists fs ?d"
  proof (cases "makedirs ?d fs")
    case (Inl e)
    with n show ?thesis
      by (simp add: save_or_create_def)
  next
    case (Inr fs')
    with created [OF n Inr] show ?thesis
      by simp
  qed
  have returns: "\<exists>fs'. makedirs ?d fs = Inr fs' \<and> is_dir fs' ?d \<and> grows fs fs'
      \<and> save_or_create plt save_path fs = savefig plt save_path fs'"
    if n: "\<not> path_exists fs ?d" and u: "unobstructed fs ?d"
  proof -
    from makedirs_succeeds [OF assms(1) u assms(2) n]
    obtain fs' where mk: "makedirs ?d fs = Inr fs'"
      by blast
    with created [OF n mk] show ?thesis
      by blast
  qed
  from exists raises returns show ?thesis
    by blast
qed

theorem save_or_create_directory_witness:
  "well_formed \<lparr>nodes = [[] \<mapsto> Dir], cwd = []\<rparr>
   \<and> dirname ''out/plots/figure.png'' \<noteq> []
   \<and> ''..'' \<notin> set (names_of (dirname ''out/plots/figure.png''))
   \<and> \<not> path_exists \<lparr>nodes = [[] \<mapsto> Dir], cwd = []\<rparr> (dirname ''out/plots/figure.png'')
   \<and> unobstructed \<lparr>nodes = [[] \<mapsto> Dir], cwd = []\<rparr> (dirname ''out/plots/figure.png'')
   \<and> makedirs (dirname ''out/plots/figure.png'') \<lparr>nodes = [[] \<mapsto> Dir], cwd = []\<rparr>
      = Inr \<lparr>nodes = [[] \<mapsto> Dir, [''out''] \<mapsto> Dir, [''out'', ''plots''] \<mapsto> Dir], cwd = []\<rparr>
   \<and> is_dir \<lparr>nodes = [[] \<mapsto> Dir, [''out''] \<mapsto> Dir, [''out'', ''plots''] \<mapsto> Dir], cwd = []\<rparr>
        (dirname ''out/plots/figure.png'')
   \<and> save_or_create
        \<lparr>savefig = \<lambda>p fs. Inr (fs\<lparr>nodes := (nodes fs)(names_of p \<mapsto> File)\<rparr>)\<rparr>
        ''out/plots/figure.png'' \<lparr>nodes = [[] \<mapsto> Dir], cwd = []\<rparr>
      = Inr \<lparr>nodes = [[] \<mapsto> Dir, [''out''] \<mapsto> Dir, [''out'', ''plots''] \<mapsto> Dir,
                      [''out'', ''plots'', ''figure.png''] \<mapsto> File], cwd = []\<rparr>"
proof -
  let ?fs = "\<lparr>nodes = [[] \<mapsto> Dir], cwd = []\<rparr>"
  let ?fs' = "\<lparr>nodes = [[] \<mapsto> Dir, [''out''] \<mapsto> Dir, [''out'', ''plots''] \<mapsto> Dir], cwd = []\<rparr>"
  let ?plt = "\<lparr>savefig = \<lambda>p fs. Inr (fs\<lparr>nodes := (nodes fs)(names_of p \<mapsto> File)\<rparr>)\<rparr>"
  have d: "dirname ''out/plots/figure.png'' = ''out/plots''"
    and s: "split_last ''out/plots'' = (''out'', ''plots'')" "split_last ''out'' = ([], ''out'')"
    and k: "names_of ''out/plots'' = [''out'', ''plots'']" "names_of ''out'' = [''out'']"
      "names_of ''out/plots/figure.png'' = [''out'', ''plots'', ''figure.png'']"
    by code_simp+
  have wf: "well_formed ?fs"
    by (simp add: well_formed_def)
  have h1: "dirname ''out/plots/figure.png'' \<noteq> []"
    and h2: "''..'' \<notin> set (names_of (dirname ''out/plots/figure.png''))"
    by (simp_all add: d k)
  have ne: "\<not> path_exists ?fs (dirname ''out/plots/figure.png'')"
    by (simp add: d path_exists_def resolve_def start_def step_def k sep_def)
  have u: "unobstructed ?fs (dirname ''out/plots/figure.png'')"
    by (simp add: d unobstructed_def target_def start_def k sep_def)
  have "makedirs ''out'' ?fs = Inr \<lparr>nodes = [[] \<mapsto> Dir, [''out''] \<mapsto> Dir], cwd = []\<rparr>"
    by (simp add: makedirs.simps [of "''out''"] s k mkdir_def resolve_def start_def step_def
        sep_def)
  then have mk: "makedirs (dirname ''out/plots/figure.png'') ?fs = Inr ?fs'"
    by (simp add: d makedirs.simps [of "''out/plots''"] s k mkdir_def path_exists_def
        resolve_def start_def step_def sep_def)
  note T = save_or_create_directory [OF wf h1 disjI1 [OF h2], of ?plt, THEN conjunct2,
      THEN conjunct2, rule_format, OF conjI [OF ne u]]
  from T have "is_dir ?fs' (dirname ''out/plots/figure.png'')"
    and "save_or_create ?plt ''out/plots/figure.png'' ?fs
           = savefig ?plt ''out/plots/figure.png'' ?fs'"
    unfolding mk by simp_all
  with wf h1 h2 ne u mk show ?thesis
    by (simp add: k)
qed

end
